theory Spec2Isabelle
  imports Main "HOL-Library.AList"
begin

unbundle bit_operations_syntax

section \<open>position.py: directions and positions\<close>

datatype direction = NONE | UP | RIGHT | DOWN | LEFT

fun opposite :: "direction \<Rightarrow> direction" where
  "opposite UP = DOWN"
| "opposite DOWN = UP"
| "opposite RIGHT = LEFT"
| "opposite LEFT = RIGHT"
| "opposite NONE = NONE"

datatype position = Position (x: int) (y: int)

text \<open>Every exception class the modelled code can raise.\<close>

datatype error = InvalidDirectionError | TerrainError | IndexError | KeyError

fun get_new_position_from :: "position \<Rightarrow> direction \<Rightarrow> error + position" where
  "get_new_position_from p UP = Inr (Position (x p) (y p - 1))"
| "get_new_position_from p RIGHT = Inr (Position (x p + 1) (y p))"
| "get_new_position_from p DOWN = Inr (Position (x p) (y p + 1))"
| "get_new_position_from p LEFT = Inr (Position (x p - 1) (y p))"
| "get_new_position_from p NONE = Inl InvalidDirectionError"

section \<open>terrain.py: tokens and the terrain grid\<close>

text \<open>
  A \<open>Token\<close> wraps a Python \<open>str\<close>; \<open>__eq__\<close> compares the wrapped values, so two
  tokens are equal exactly when their strings are.  A Python string is a sequence of
  Unicode code points, modelled as a list of naturals.
\<close>

datatype token = Token (tvalue: "nat list")

definition EMPTY :: token where "EMPTY = Token [0x20]"
definition WALL :: token where "WALL = Token [0x23]"
definition BOMB :: token where "BOMB = Token [0x3CC]"

text \<open>\<open>Token.FLAMES\<close>: the fifteen box-drawing glyphs, in the order of the source.\<close>

definition FLAMES :: "token list" where
  "FLAMES = [Token [0x2574], Token [0x2576], Token [0x2500], Token [0x2575], Token [0x2518],
             Token [0x2514], Token [0x2534], Token [0x2577], Token [0x2510], Token [0x250C],
             Token [0x252C], Token [0x2502], Token [0x2524], Token [0x251C], Token [0x253C]]"

text \<open>
  \<open>Terrain\<close>: the private fields \<open>_width\<close>, \<open>_height\<close> and the row-major list \<open>_terrain\<close>.
\<close>

record terrain =
  width :: int
  height :: int
  cells :: "token list"

text \<open>The constructor always allocates \<open>[Token.EMPTY] * (width * height)\<close> cells.\<close>

definition wf_terrain :: "terrain \<Rightarrow> bool" where
  "wf_terrain t \<longleftrightarrow> length (cells t) = nat (width t * height t)"

definition is_valid_position :: "terrain \<Rightarrow> position \<Rightarrow> bool" where
  "is_valid_position t pos =
     (if x pos < 0 \<or> x pos \<ge> width t \<or> y pos < 0 \<or> y pos \<ge> height t then False else True)"

definition loc_to_index :: "terrain \<Rightarrow> position \<Rightarrow> error + int" where
  "loc_to_index t pos =
     (if \<not> is_valid_position t pos then Inl TerrainError
      else Inr (y pos * width t + x pos))"

text \<open>
  Subscripting a Python list with an integer: \<open>0 \<le> i < len\<close> is the position itself,
  \<open>-len \<le> i < 0\<close> is taken from the end, and anything else raises \<open>IndexError\<close>.
\<close>

definition py_index :: "'a list \<Rightarrow> int \<Rightarrow> error + nat" where
  "py_index xs i =
     (if 0 \<le> i \<and> i < int (length xs) then Inr (nat i)
      else if i < 0 \<and> - int (length xs) \<le> i then Inr (nat (int (length xs) + i))
      else Inl IndexError)"

definition get_token :: "terrain \<Rightarrow> position \<Rightarrow> error + token" where
  "get_token t pos =
     (case loc_to_index t pos of
        Inl e \<Rightarrow> Inl e
      | Inr i \<Rightarrow> (case py_index (cells t) i of
                    Inl e \<Rightarrow> Inl e
                  | Inr j \<Rightarrow> Inr (cells t ! j)))"

text \<open>
  A \<open>dict[Position, Token]\<close> keeps its keys in insertion order and assigning to a key
  that is present replaces the value in place: exactly \<open>AList.update\<close> on an
  association list.
\<close>

type_synonym changes = "(position \<times> token) list"

fun update :: "terrain \<Rightarrow> changes \<Rightarrow> error + terrain" where
  "update t [] = Inr t"
| "update t ((pos, tok) # rest) =
     (case loc_to_index t pos of
        Inl e \<Rightarrow> Inl e
      | Inr i \<Rightarrow> (case py_index (cells t) i of
                    Inl e \<Rightarrow> Inl e
                  | Inr j \<Rightarrow> update (t\<lparr>cells := (cells t)[j := tok]\<rparr>) rest))"

section \<open>bombs.py: the detonation engine\<close>

definition BOMB_SIZE :: nat where "BOMB_SIZE = 3"

fun DIRECTION_TO_BIT :: "direction \<Rightarrow> nat option" where
  "DIRECTION_TO_BIT DOWN = Some (push_bit 3 1)"
| "DIRECTION_TO_BIT UP = Some (push_bit 2 1)"
| "DIRECTION_TO_BIT RIGHT = Some (push_bit 1 1)"
| "DIRECTION_TO_BIT LEFT = Some (push_bit 0 1)"
| "DIRECTION_TO_BIT NONE = None"

definition flame_tokens :: "(nat \<times> token) list" where
  "flame_tokens =
    [(0, Token [0x20]), (1, Token [0x2574]), (2, Token [0x2576]), (3, Token [0x2500]),
     (4, Token [0x2575]), (5, Token [0x2518]), (6, Token [0x2514]), (7, Token [0x2534]),
     (8, Token [0x2577]), (9, Token [0x2510]), (10, Token [0x250C]), (11, Token [0x252C]),
     (12, Token [0x2502]), (13, Token [0x2524]), (14, Token [0x251C]), (15, Token [0x253C])]"

text \<open>
  The reverse scan of \<open>add_flame\<close>: the first mask whose glyph equals the recorded token,
  and \<open>0\<close> when the loop finds none.
\<close>

definition existing_mask_of :: "token \<Rightarrow> nat" where
  "existing_mask_of tok =
     (case find (\<lambda>(msk, glyph). tok = glyph) flame_tokens of
        None \<Rightarrow> 0
      | Some (msk, glyph) \<Rightarrow> msk)"

text \<open>
  The loop \<open>for direction in directions: existing_mask |= DIRECTION_TO_BIT[direction]\<close>.
  The set of directions is given as a list; the result does not depend on its order.
\<close>

fun merge_directions :: "nat \<Rightarrow> direction list \<Rightarrow> error + nat" where
  "merge_directions m [] = Inr m"
| "merge_directions m (d # ds) =
     (case DIRECTION_TO_BIT d of
        None \<Rightarrow> Inl KeyError
      | Some b \<Rightarrow> merge_directions (m OR b) ds)"

definition add_flame :: "terrain \<Rightarrow> position \<Rightarrow> direction list \<Rightarrow> changes \<Rightarrow> error + changes" where
  "add_flame t position directions changes =
     (if \<not> is_valid_position t position then Inr changes
      else
        let existing_mask = (case map_of changes position of
                               None \<Rightarrow> 0
                             | Some tok \<Rightarrow> existing_mask_of tok)
        in case merge_directions existing_mask directions of
             Inl e \<Rightarrow> Inl e
           | Inr m \<Rightarrow> (case map_of flame_tokens m of
                         None \<Rightarrow> Inl KeyError
                       | Some tok \<Rightarrow> Inr (AList.update position tok changes)))"

function (domintros)
  propagate :: "terrain \<Rightarrow> position \<Rightarrow> direction \<Rightarrow> nat \<Rightarrow> changes \<Rightarrow> error + changes"
  and detonate_at :: "terrain \<Rightarrow> position \<Rightarrow> changes \<Rightarrow> error + changes"
  and detonate_loop :: "terrain \<Rightarrow> position \<Rightarrow> direction list \<Rightarrow> changes \<Rightarrow> error + changes"
where
  "propagate t current incoming 0 changes = Inr changes"
| "propagate t current incoming (Suc n) changes =
     (case get_token t current of
        Inl e \<Rightarrow> Inl e
      | Inr tok \<Rightarrow>
          if tok = WALL then Inr (AList.update current EMPTY changes)
          else if tok = BOMB \<and> map_of changes current = None then detonate_at t current changes
          else
            (case add_flame t current
                    (if Suc n = 1 then [opposite incoming] else [incoming, opposite incoming])
                    changes of
               Inl e \<Rightarrow> Inl e
             | Inr changes1 \<Rightarrow>
                 (case get_new_position_from current incoming of
                    Inl e \<Rightarrow> Inl e
                  | Inr next_pos \<Rightarrow>
                      if is_valid_position t next_pos
                      then propagate t next_pos incoming n changes1
                      else Inr changes1)))"
| "detonate_at t center changes =
     (case add_flame t center [UP, DOWN, LEFT, RIGHT] changes of
        Inl e \<Rightarrow> Inl e
      | Inr changes1 \<Rightarrow> detonate_loop t center [UP, DOWN, LEFT, RIGHT] changes1)"
| "detonate_loop t center [] changes = Inr changes"
| "detonate_loop t center (d # ds) changes =
     (case get_new_position_from center d of
        Inl e \<Rightarrow> Inl e
      | Inr next_pos \<Rightarrow>
          (case (if is_valid_position t next_pos
                 then propagate t next_pos d BOMB_SIZE changes
                 else Inr changes) of
             Inl e \<Rightarrow> Inl e
           | Inr changes1 \<Rightarrow> detonate_loop t center ds changes1))"
  by pat_completeness auto

text \<open>
  Termination.  Every call of \<open>_detonate\<close> from \<open>_propagate\<close> is on a valid position
  that is not yet a key of the change-set, and \<open>add_flame\<close> makes it one at once; keys
  are never removed.  So the number of valid positions that are not keys decreases along
  the chain of detonations, and between two detonations the step counter and the list
  of remaining directions decrease.
\<close>


definition unrecorded :: "terrain \<Rightarrow> changes \<Rightarrow> position set" where
  "unrecorded t ch = {p. is_valid_position t p \<and> map_of ch p = None}"

lemma finite_valid_positions: "finite {p. is_valid_position t p}"
proof -
  have "{p. is_valid_position t p} \<subseteq> (\<lambda>(a, b). Position a b) ` ({0..<width t} \<times> {0..<height t})"
  proof
    fix p assume "p \<in> {p. is_valid_position t p}"
    then have "0 \<le> x p" "x p < width t" "0 \<le> y p" "y p < height t"
      by (auto simp: is_valid_position_def split: if_splits)
    then have "(x p, y p) \<in> {0..<width t} \<times> {0..<height t}" by simp
    then have "(\<lambda>(a, b). Position a b) (x p, y p) \<in> (\<lambda>(a, b). Position a b) ` ({0..<width t} \<times> {0..<height t})"
      by (rule imageI)
    then show "p \<in> (\<lambda>(a, b). Position a b) ` ({0..<width t} \<times> {0..<height t})" by simp
  qed
  then show ?thesis by (rule finite_subset) simp
qed

lemma finite_unrecorded: "finite (unrecorded t ch)"
  by (rule finite_subset [OF _ finite_valid_positions [of t]]) (auto simp: unrecorded_def)

lemma get_token_valid: "get_token t p = Inr tok \<Longrightarrow> is_valid_position t p"
  by (auto simp: get_token_def loc_to_index_def split: if_splits sum.splits)

lemma add_flame_dom:
  "add_flame t p ds ch = Inr r \<Longrightarrow>
   dom (map_of r) = (if is_valid_position t p then insert p (dom (map_of ch)) else dom (map_of ch))"
  by (auto simp: add_flame_def Let_def update_conv' split: if_splits sum.splits option.splits)

lemma unrecorded_add_flame:
  "add_flame t p ds ch = Inr r \<Longrightarrow> unrecorded t r = unrecorded t ch - {p}"
  by (auto simp: unrecorded_def add_flame_def Let_def update_conv' split: if_splits sum.splits option.splits)

lemma unrecorded_mono: "dom (map_of ch) \<subseteq> dom (map_of r) \<Longrightarrow> unrecorded t r \<subseteq> unrecorded t ch"
  by (auto simp: unrecorded_def dom_def)

lemma grows_partial:
  "propagate_detonate_at_detonate_loop_dom (Inl (t, c, d, n, ch)) \<Longrightarrow>
     \<forall>r. propagate t c d n ch = Inr r \<longrightarrow> dom (map_of ch) \<subseteq> dom (map_of r)"
  "propagate_detonate_at_detonate_loop_dom (Inr (Inl (t1, c1, ch1))) \<Longrightarrow>
     \<forall>r. detonate_at t1 c1 ch1 = Inr r \<longrightarrow> dom (map_of ch1) \<subseteq> dom (map_of r)"
  "propagate_detonate_at_detonate_loop_dom (Inr (Inr (t2, c2, ds2, ch2))) \<Longrightarrow>
     \<forall>r. detonate_loop t2 c2 ds2 ch2 = Inr r \<longrightarrow> dom (map_of ch2) \<subseteq> dom (map_of r)"
proof (induct rule: propagate_detonate_at_detonate_loop.pinduct)
  case (1 t current incoming changes)
  then show ?case by (simp add: propagate.psimps)
next
  case (2 t current incoming n changes)
  show ?case
  proof (intro allI impI)
    fix r assume r: "propagate t current incoming (Suc n) changes = Inr r"
    note ps = propagate.psimps(2) [OF 2(1)]
    from r obtain tok where tok: "get_token t current = Inr tok"
      by (auto simp: ps split: sum.splits)
    show "dom (map_of changes) \<subseteq> dom (map_of r)"
    proof (cases "tok = WALL")
      case True
      with r tok show ?thesis by (auto simp: ps update_conv')
    next
      case nw: False
      show ?thesis
      proof (cases "tok = BOMB \<and> map_of changes current = None")
        case True
        with r tok nw have "detonate_at t current changes = Inr r" by (simp add: ps)
        with 2(2) [OF tok nw True] show ?thesis by blast
      next
        case nb: False
        from r tok nw nb obtain ch1 np where
          af: "add_flame t current (if Suc n = 1 then [opposite incoming] else [incoming, opposite incoming]) changes = Inr ch1"
          and np: "get_new_position_from current incoming = Inr np"
          and rest: "(if is_valid_position t np then propagate t np incoming n ch1 else Inr ch1) = Inr r"
          by (auto simp: ps split: sum.splits if_splits)
        have sub1: "dom (map_of changes) \<subseteq> dom (map_of ch1)"
          using add_flame_dom [OF af] by (auto split: if_splits)
        show ?thesis
        proof (cases "is_valid_position t np")
          case True
          with rest have "propagate t np incoming n ch1 = Inr r" by simp
          with 2(3) [OF tok nw nb af np True] have "dom (map_of ch1) \<subseteq> dom (map_of r)" by blast
          with sub1 show ?thesis by blast
        next
          case False
          with rest sub1 show ?thesis by simp
        qed
      qed
    qed
  qed
next
  case (3 t center changes)
  show ?case
  proof (intro allI impI)
    fix r assume r: "detonate_at t center changes = Inr r"
    note ps = detonate_at.psimps [OF 3(1)]
    from r obtain ch1 where af: "add_flame t center [UP, DOWN, LEFT, RIGHT] changes = Inr ch1"
      and rest: "detonate_loop t center [UP, DOWN, LEFT, RIGHT] ch1 = Inr r"
      by (auto simp: ps split: sum.splits)
    have "dom (map_of changes) \<subseteq> dom (map_of ch1)"
      using add_flame_dom [OF af] by (auto split: if_splits)
    moreover from 3(2) [OF af] rest have "dom (map_of ch1) \<subseteq> dom (map_of r)" by blast
    ultimately show "dom (map_of changes) \<subseteq> dom (map_of r)" by blast
  qed
next
  case (4 t center changes)
  then show ?case by (simp add: detonate_loop.psimps)
next
  case (5 t center d ds changes)
  show ?case
  proof (intro allI impI)
    fix r assume r: "detonate_loop t center (d # ds) changes = Inr r"
    note ps = detonate_loop.psimps(2) [OF 5(1)]
    from r obtain np ch1 where np: "get_new_position_from center d = Inr np"
      and first: "(if is_valid_position t np then propagate t np d BOMB_SIZE changes else Inr changes) = Inr ch1"
      and rest: "detonate_loop t center ds ch1 = Inr r"
      by (auto simp: ps split: sum.splits)
    have "dom (map_of changes) \<subseteq> dom (map_of ch1)"
    proof (cases "is_valid_position t np")
      case True
      with first have "propagate t np d BOMB_SIZE changes = Inr ch1" by simp
      with 5(2) [OF np True] show ?thesis by blast
    next
      case False
      with first show ?thesis by simp
    qed
    moreover from 5(3) [OF np first] rest have "dom (map_of ch1) \<subseteq> dom (map_of r)" by blast
    ultimately show "dom (map_of changes) \<subseteq> dom (map_of r)" by blast
  qed
qed

fun engine_measure ::
  "(terrain \<times> position \<times> direction \<times> nat \<times> changes) +
   (terrain \<times> position \<times> changes) + (terrain \<times> position \<times> direction list \<times> changes) \<Rightarrow> nat \<times> nat" where
  "engine_measure (Inl (t, c, d, n, ch)) = (card (unrecorded t ch), n)"
| "engine_measure (Inr (Inl (t, c, ch))) = (card (unrecorded t ch - {c}), 10)"
| "engine_measure (Inr (Inr (t, c, ds, ch))) = (card (unrecorded t ch), 4 + length ds)"

lemma engine_all_dom: "All propagate_detonate_at_detonate_loop_dom"
proof (rule "propagate_detonate_at_detonate_loop.termination"
         [where R = "inv_image (less_than <*lex*> less_than) engine_measure"], goal_cases)
  case 1
  show ?case by (intro wf_inv_image wf_lex_prod wf_less_than)
next
  case (2 t current incoming n changes tok)
  then have "current \<in> unrecorded t changes"
    by (auto simp: unrecorded_def dest: get_token_valid)
  then have "card (unrecorded t changes - {current}) < card (unrecorded t changes)"
    by (intro card_Diff1_less finite_unrecorded)
  then show ?case by simp
next
  case (3 t current incoming n changes tok ch1 np)
  have "unrecorded t ch1 \<subseteq> unrecorded t changes"
    using unrecorded_add_flame [OF 3(4)] by auto
  then have "card (unrecorded t ch1) \<le> card (unrecorded t changes)"
    by (simp add: card_mono finite_unrecorded)
  then show ?case by auto
next
  case (4 t center changes ch1)
  then show ?case by (simp add: unrecorded_add_flame)
next
  case (5 t center d ds changes np)
  then show ?case by (simp add: BOMB_SIZE_def)
next
  case (6 t center d ds changes np ch1)
  have "dom (map_of changes) \<subseteq> dom (map_of ch1)"
  proof (cases "is_valid_position t np")
    case True
    with 6 grows_partial(1) [of t np d BOMB_SIZE changes] show ?thesis by auto
  next
    case False
    with 6 show ?thesis by simp
  qed
  then have "card (unrecorded t ch1) \<le> card (unrecorded t changes)"
    by (intro card_mono finite_unrecorded unrecorded_mono)
  then show ?case by auto
qed

termination propagate
  by (rule engine_all_dom)

declare propagate.simps [simp del] detonate_at.simps [simp del] detonate_loop.simps [simp del]

lemma engine_dom: "propagate_detonate_at_detonate_loop_dom a"
  using engine_all_dom by simp

lemma propagate_grows: "propagate t c d n ch = Inr r \<Longrightarrow> dom (map_of ch) \<subseteq> dom (map_of r)"
  using grows_partial(1) [OF engine_dom] by blast

lemma detonate_at_grows: "detonate_at t c ch = Inr r \<Longrightarrow> dom (map_of ch) \<subseteq> dom (map_of r)"
  using grows_partial(2) [OF engine_dom] by blast

lemma detonate_loop_grows: "detonate_loop t c ds ch = Inr r \<Longrightarrow> dom (map_of ch) \<subseteq> dom (map_of r)"
  using grows_partial(3) [OF engine_dom] by blast

text \<open>The entry point: \<open>detonate(pos, terrain)\<close> starts from the empty dictionary.\<close>

definition detonate :: "position \<Rightarrow> terrain \<Rightarrow> error + changes" where
  "detonate pos t =
     (case get_token t pos of
        Inl e \<Rightarrow> Inl e
      | Inr tok \<Rightarrow> if tok = BOMB then detonate_at t pos [] else Inr [])"

lemma valid_iff:
  "is_valid_position t p \<longleftrightarrow> 0 \<le> x p \<and> x p < width t \<and> 0 \<le> y p \<and> y p < height t"
  by (auto simp: is_valid_position_def)

lemma index_in_range:
  assumes "is_valid_position t p"
  shows "0 \<le> y p * width t + x p" and "y p * width t + x p < width t * height t"
proof -
  from assms have b: "0 \<le> x p" "x p < width t" "0 \<le> y p" "y p < height t"
    by (simp_all add: valid_iff)
  then show "0 \<le> y p * width t + x p" by simp
  from b have "y p + 1 \<le> height t" by simp
  then have "(y p + 1) * width t \<le> height t * width t"
    using b(1,2) by (intro mult_right_mono) auto
  then show "y p * width t + x p < width t * height t"
    using b(2) by (simp add: algebra_simps)
qed

definition tok_at :: "terrain \<Rightarrow> position \<Rightarrow> token" where
  "tok_at t p = cells t ! nat (y p * width t + x p)"

lemma get_token_wf:
  assumes "wf_terrain t" "is_valid_position t p"
  shows "get_token t p = Inr (tok_at t p)"
proof -
  from index_in_range [OF assms(2)] assms(1)
  have "0 \<le> y p * width t + x p" "y p * width t + x p < int (length (cells t))"
    by (simp_all add: wf_terrain_def)
  with assms(2) show ?thesis
    by (simp add: get_token_def loc_to_index_def py_index_def tok_at_def Let_def)
qed

lemma get_token_invalid: "\<not> is_valid_position t p \<Longrightarrow> get_token t p = Inl TerrainError"
  by (simp add: get_token_def loc_to_index_def)

subsection \<open>Masks and glyphs\<close>

definition glyph :: "nat \<Rightarrow> token" where
  "glyph m = (case map_of flame_tokens m of Some tok \<Rightarrow> tok | None \<Rightarrow> EMPTY)"

definition mask_at :: "changes \<Rightarrow> position \<Rightarrow> nat" where
  "mask_at ch p = (case map_of ch p of None \<Rightarrow> 0 | Some tok \<Rightarrow> existing_mask_of tok)"

fun direction_bits :: "direction list \<Rightarrow> nat" where
  "direction_bits [] = 0"
| "direction_bits (d # ds) = (case DIRECTION_TO_BIT d of None \<Rightarrow> 0 | Some b \<Rightarrow> b) OR direction_bits ds"

lemma lt16_cases:
  "m < (16::nat) \<Longrightarrow> m = 0 \<or> m = 1 \<or> m = 2 \<or> m = 3 \<or> m = 4 \<or> m = 5 \<or> m = 6 \<or> m = 7 \<or>
     m = 8 \<or> m = 9 \<or> m = 10 \<or> m = 11 \<or> m = 12 \<or> m = 13 \<or> m = 14 \<or> m = 15"
  by arith

lemma flame_tokens_lookup: "m < 16 \<Longrightarrow> map_of flame_tokens m = Some (glyph m)"
  by (drule lt16_cases) (auto simp: glyph_def flame_tokens_def)

lemma existing_mask_of_glyph: "m < 16 \<Longrightarrow> existing_mask_of (glyph m) = m"
  by (drule lt16_cases) (auto simp: glyph_def flame_tokens_def existing_mask_of_def)

lemma existing_mask_of_lt16: "existing_mask_of tok < 16"
proof (cases "find (\<lambda>(msk, glyph). tok = glyph) flame_tokens")
  case None
  then show ?thesis by (simp add: existing_mask_of_def)
next
  case (Some a)
  then have "a \<in> set flame_tokens" by (auto simp: find_Some_iff in_set_conv_nth)
  then have "fst a < 16" by (auto simp: flame_tokens_def)
  with Some show ?thesis by (auto simp: existing_mask_of_def split: prod.splits)
qed

lemma mask_at_lt16: "mask_at ch p < 16"
  by (simp add: mask_at_def existing_mask_of_lt16 split: option.splits)

lemma or_lt16: "a < (16::nat) \<Longrightarrow> b < 16 \<Longrightarrow> a OR b < 16"
proof -
  assume "a < 16" "b < 16"
  then have "take_bit 4 a = a" "take_bit 4 b = b" by (simp_all add: take_bit_nat_eq_self)
  then have "take_bit 4 (a OR b) = a OR b" by (simp add: take_bit_or)
  then have "a OR b < 2 ^ 4" by (simp only: take_bit_nat_eq_self_iff)
  then show ?thesis by simp
qed

lemma DIRECTION_TO_BIT_values [simp]:
  "DIRECTION_TO_BIT DOWN = Some 8" "DIRECTION_TO_BIT UP = Some 4"
  "DIRECTION_TO_BIT RIGHT = Some 2" "DIRECTION_TO_BIT LEFT = Some 1"
  by simp_all

lemma direction_bits_lt16: "direction_bits ds < 16"
proof (induction ds)
  case Nil
  show ?case by simp
next
  case (Cons d ds)
  have "(case DIRECTION_TO_BIT d of None \<Rightarrow> 0 | Some b \<Rightarrow> b) < 16" by (cases d) simp_all
  with Cons show ?case by (simp add: or_lt16)
qed

lemma merge_directions_cardinal:
  "NONE \<notin> set ds \<Longrightarrow> merge_directions m ds = Inr (m OR direction_bits ds)"
proof (induction ds arbitrary: m)
  case Nil
  show ?case by simp
next
  case (Cons d ds)
  then obtain b where b: "DIRECTION_TO_BIT d = Some b" by (cases d) auto
  with Cons show ?case by (simp add: or.assoc)
qed

lemma merge_directions_NONE:
  "NONE \<in> set ds \<Longrightarrow> merge_directions m ds = Inl KeyError"
proof (induction ds arbitrary: m)
  case Nil
  then show ?case by simp
next
  case (Cons d ds)
  then show ?case by (cases d) auto
qed

lemma add_flame_valid:
  assumes "is_valid_position t p" "NONE \<notin> set ds"
  shows "add_flame t p ds ch = Inr (AList.update p (glyph (mask_at ch p OR direction_bits ds)) ch)"
proof -
  have "mask_at ch p OR direction_bits ds < 16"
    by (intro or_lt16 mask_at_lt16 direction_bits_lt16)
  then have "map_of flame_tokens (mask_at ch p OR direction_bits ds)
               = Some (glyph (mask_at ch p OR direction_bits ds))"
    by (rule flame_tokens_lookup)
  with assms show ?thesis
    by (simp add: add_flame_def mask_at_def [symmetric] merge_directions_cardinal)
qed

lemma add_flame_invalid: "\<not> is_valid_position t p \<Longrightarrow> add_flame t p ds ch = Inr ch"
  by (simp add: add_flame_def)

lemma mask_at_update_same: "m < 16 \<Longrightarrow> mask_at (AList.update p (glyph m) ch) p = m"
  by (simp add: mask_at_def update_conv' existing_mask_of_glyph)

lemma mask_at_update_other: "q \<noteq> p \<Longrightarrow> mask_at (AList.update p tok ch) q = mask_at ch q"
  by (simp add: mask_at_def update_conv')

subsection \<open>A preservation principle for the engine\<close>

definition stable :: "terrain \<Rightarrow> (changes \<Rightarrow> bool) \<Rightarrow> bool" where
  "stable t I \<longleftrightarrow>
     (\<forall>c ch. I ch \<longrightarrow> get_token t c = Inr WALL \<longrightarrow> I (AList.update c EMPTY ch)) \<and>
     (\<forall>c ds ch tok. I ch \<longrightarrow> get_token t c = Inr tok \<longrightarrow> tok \<noteq> WALL \<longrightarrow> NONE \<notin> set ds \<longrightarrow> ds \<noteq> [] \<longrightarrow>
        I (AList.update c (glyph (mask_at ch c OR direction_bits ds)) ch))"

lemma stableD_wall:
  "stable t I \<Longrightarrow> I ch \<Longrightarrow> get_token t c = Inr WALL \<Longrightarrow> I (AList.update c EMPTY ch)"
  by (simp add: stable_def)

lemma stableD_flame:
  "stable t I \<Longrightarrow> I ch \<Longrightarrow> get_token t c = Inr tok \<Longrightarrow> tok \<noteq> WALL \<Longrightarrow> NONE \<notin> set ds \<Longrightarrow> ds \<noteq> [] \<Longrightarrow>
     I (AList.update c (glyph (mask_at ch c OR direction_bits ds)) ch)"
  unfolding stable_def by blast

lemma get_token_valid': "get_token t p = Inr tok \<Longrightarrow> is_valid_position t p"
  by (rule get_token_valid)

lemma opposite_NONE [simp]: "opposite d = NONE \<longleftrightarrow> d = NONE" "NONE = opposite d \<longleftrightarrow> d = NONE"
  by (cases d; simp)+

lemma get_new_position_from_cardinal:
  "d \<noteq> NONE \<Longrightarrow> \<exists>np. get_new_position_from c d = Inr np"
  by (cases d) simp_all

lemma BOMB_neq_WALL [simp]: "BOMB \<noteq> WALL" "WALL \<noteq> BOMB" "EMPTY \<noteq> WALL" "EMPTY \<noteq> BOMB"
  "WALL \<noteq> EMPTY" "BOMB \<noteq> EMPTY"
  by (simp_all add: BOMB_def WALL_def EMPTY_def)

lemma propagate_wall:
  "get_token t c = Inr WALL \<Longrightarrow> propagate t c d (Suc n) ch = Inr (AList.update c EMPTY ch)"
  by (simp add: propagate.simps)

lemma propagate_chain:
  "get_token t c = Inr BOMB \<Longrightarrow> map_of ch c = None \<Longrightarrow>
     propagate t c d (Suc n) ch = detonate_at t c ch"
  by (simp add: propagate.simps)

lemma propagate_open:
  assumes "get_token t c = Inr tok" "tok \<noteq> WALL" "\<not> (tok = BOMB \<and> map_of ch c = None)"
  shows "propagate t c d (Suc n) ch =
     (case add_flame t c (if n = 0 then [opposite d] else [d, opposite d]) ch of
        Inl e \<Rightarrow> Inl e
      | Inr ch1 \<Rightarrow>
          (case get_new_position_from c d of
             Inl e \<Rightarrow> Inl e
           | Inr np \<Rightarrow> if is_valid_position t np then propagate t np d n ch1 else Inr ch1))"
proof (cases "tok = BOMB")
  case True
  with assms show ?thesis by (auto simp: propagate.simps)
next
  case False
  with assms show ?thesis by (simp add: propagate.simps)
qed

lemma engine_stable:
  "wf_terrain t \<Longrightarrow> stable t I \<Longrightarrow> is_valid_position t c \<Longrightarrow> d \<noteq> NONE \<Longrightarrow> I ch \<Longrightarrow>
     \<exists>r. propagate t c d n ch = Inr r \<and> I r"
  "wf_terrain t \<Longrightarrow> stable t I \<Longrightarrow> get_token t c1 = Inr BOMB \<Longrightarrow> I ch1 \<Longrightarrow>
     \<exists>r. detonate_at t c1 ch1 = Inr r \<and> I r"
  "wf_terrain t \<Longrightarrow> stable t I \<Longrightarrow> get_token t c2 = Inr BOMB \<Longrightarrow> NONE \<notin> set ds \<Longrightarrow> I ch2 \<Longrightarrow>
     \<exists>r. detonate_loop t c2 ds ch2 = Inr r \<and> I r"
proof (induct t c d n ch and t c1 ch1 and t c2 ds ch2 rule: propagate_detonate_at_detonate_loop.induct)
  case (1 t current incoming changes)
  then show ?case by (simp add: propagate.simps)
next
  case (2 t current incoming n changes)
  note wf = \<open>wf_terrain t\<close> and st = \<open>stable t I\<close> and v = \<open>is_valid_position t current\<close>
    and card = \<open>incoming \<noteq> NONE\<close> and I = \<open>I changes\<close>
  define tok where "tok = tok_at t current"
  have tok: "get_token t current = Inr tok" using get_token_wf [OF wf v] by (simp add: tok_def)
  show ?case
  proof (cases "tok = WALL")
    case True
    with tok stableD_wall [OF st I] show ?thesis by (simp add: propagate.simps)
  next
    case nw: False
    show ?thesis
    proof (cases "tok = BOMB \<and> map_of changes current = None")
      case True
      with tok have "get_token t current = Inr BOMB" by simp
      from "2.hyps"(1) [OF tok nw True wf st this I]
      show ?thesis using tok nw True by (simp add: propagate.simps)
    next
      case nb: False
      let ?ds = "if Suc n = 1 then [opposite incoming] else [incoming, opposite incoming]"
      have ds: "NONE \<notin> set ?ds" "?ds \<noteq> []" using card by auto
      let ?ch1 = "AList.update current (glyph (mask_at changes current OR direction_bits ?ds)) changes"
      have af: "add_flame t current ?ds changes = Inr ?ch1"
        by (rule add_flame_valid [OF v ds(1)])
      have I1: "I ?ch1" by (rule stableD_flame [OF st I tok nw ds])
      from get_new_position_from_cardinal [OF card] obtain np where
        np: "get_new_position_from current incoming = Inr np" by blast
      show ?thesis
      proof (cases "is_valid_position t np")
        case True
        from "2.hyps"(2) [OF tok nw nb af np True wf st True card I1]
        show ?thesis using af np True by (simp add: propagate_open [OF tok nw nb])
      next
        case False
        with I1 show ?thesis using af np by (simp add: propagate_open [OF tok nw nb])
      qed
    qed
  qed
next
  case (3 t center changes)
  note wf = \<open>wf_terrain t\<close> and st = \<open>stable t I\<close> and b = \<open>get_token t center = Inr BOMB\<close>
    and I = \<open>I changes\<close>
  let ?ds = "[UP, DOWN, LEFT, RIGHT]"
  let ?ch1 = "AList.update center (glyph (mask_at changes center OR direction_bits ?ds)) changes"
  have v: "is_valid_position t center" using b by (rule get_token_valid)
  have af: "add_flame t center ?ds changes = Inr ?ch1"
    by (rule add_flame_valid [OF v]) simp
  have I1: "I ?ch1" by (rule stableD_flame [OF st I b]) simp_all
  from "3.hyps" [OF af wf st b _ I1] show ?case
    using af by (simp add: detonate_at.simps)
next
  case (4 t center changes)
  then show ?case by (simp add: detonate_loop.simps)
next
  case (5 t center d ds changes)
  note wf = \<open>wf_terrain t\<close> and st = \<open>stable t I\<close> and b = \<open>get_token t center = Inr BOMB\<close>
    and I = \<open>I changes\<close>
  from \<open>NONE \<notin> set (d # ds)\<close> have card: "d \<noteq> NONE" and rest: "NONE \<notin> set ds" by auto
  from get_new_position_from_cardinal [OF card] obtain np where
    np: "get_new_position_from center d = Inr np" by blast
  have "\<exists>ch1. (if is_valid_position t np then propagate t np d BOMB_SIZE changes else Inr changes) = Inr ch1 \<and> I ch1"
  proof (cases "is_valid_position t np")
    case True
    from "5.hyps"(1) [OF np True wf st True card I] show ?thesis using True by simp
  next
    case False
    with I show ?thesis by simp
  qed
  then obtain ch1 where
    first: "(if is_valid_position t np then propagate t np d BOMB_SIZE changes else Inr changes) = Inr ch1"
    and I1: "I ch1" by blast
  from "5.hyps"(2) [OF np first wf st b rest I1] show ?case
    using np first by (simp add: detonate_loop.simps)
qed

lemma BOMB_SIZE_Suc: "BOMB_SIZE = Suc (Suc (Suc 0))"
  by (simp add: BOMB_SIZE_def)

lemmas eval_simps = detonate_def get_token_def loc_to_index_def is_valid_position_def py_index_def
  detonate_at.simps detonate_loop.simps propagate.simps add_flame_def BOMB_SIZE_Suc
  EMPTY_def BOMB_def WALL_def flame_tokens_def existing_mask_of_def wf_terrain_def

definition row2 :: terrain where
  "row2 = \<lparr>width = 2, height = 1, cells = [BOMB, EMPTY]\<rparr>"

text \<open>
  Claim C7.  On every grid, for every valid position whose cell does not hold the bomb
  marker, \<open>detonate\<close> returns the empty mapping: a normal return, not an error.
\<close>

theorem detonate_non_bomb_is_noop:
  assumes "wf_terrain t" and "is_valid_position t pos" and "get_token t pos \<noteq> Inr BOMB"
  shows "detonate pos t = Inr []"
proof -
  from assms(1,2) have "get_token t pos = Inr (tok_at t pos)" by (rule get_token_wf)
  with assms(3) show ?thesis by (simp add: detonate_def)
qed

theorem detonate_non_bomb_is_noop_witness:
  "wf_terrain row2 \<and> is_valid_position row2 (Position 1 0) \<and>
   get_token row2 (Position 1 0) \<noteq> Inr BOMB \<and> detonate (Position 1 0) row2 = Inr []"
proof -
  have h: "wf_terrain row2" "is_valid_position row2 (Position 1 0)"
    "get_token row2 (Position 1 0) \<noteq> Inr BOMB"
    by (simp_all add: row2_def eval_simps)
  from h detonate_non_bomb_is_noop [OF h] show ?thesis by simp
qed

text \<open>
  Claim C5.  The claim says that \<open>detonate\<close> never fails with an out-of-bounds error,
  also for a starting position outside the grid.  The entry point reads
  \<open>terrain.get_token(pos)\<close> without the validity check that \<open>_detonate\<close>, \<open>_propagate\<close>
  and \<open>add_flame\<close> all make before touching a cell, so a start outside the grid raises
  \<open>TerrainError\<close>.
\<close>

theorem detonate_out_of_bounds_raises:
  "wf_terrain row2 \<and> \<not> is_valid_position row2 (Position (- 1) 0) \<and>
   detonate (Position (- 1) 0) row2 = Inl TerrainError"
  by (simp add: row2_def eval_simps)

lemma direction_bits_absorb:
  "d \<in> set ds \<Longrightarrow>
     (case DIRECTION_TO_BIT d of None \<Rightarrow> 0 | Some b \<Rightarrow> b) OR direction_bits ds = direction_bits ds"
proof (induction ds)
  case Nil
  then show ?case by simp
next
  case (Cons e ds)
  show ?case
  proof (cases "d = e")
    case True
    then show ?thesis by (simp add: or.assoc [symmetric])
  next
    case False
    with Cons have ih: "(case DIRECTION_TO_BIT d of None \<Rightarrow> 0 | Some b \<Rightarrow> b) OR direction_bits ds = direction_bits ds"
      by simp
    let ?a = "case DIRECTION_TO_BIT d of None \<Rightarrow> 0 | Some b \<Rightarrow> b"
    let ?b = "case DIRECTION_TO_BIT e of None \<Rightarrow> 0 | Some b \<Rightarrow> b"
    have "?a OR (?b OR direction_bits ds) = ?b OR (?a OR direction_bits ds)"
      by (rule or.left_commute)
    with ih show ?thesis by simp
  qed
qed

lemma direction_bits_subset:
  "set ds2 \<subseteq> set ds1 \<Longrightarrow> direction_bits ds1 OR direction_bits ds2 = direction_bits ds1"
proof (induction ds2)
  case Nil
  show ?case by simp
next
  case (Cons d ds2)
  then have "d \<in> set ds1" and ih: "direction_bits ds1 OR direction_bits ds2 = direction_bits ds1"
    by simp_all
  let ?a = "case DIRECTION_TO_BIT d of None \<Rightarrow> 0 | Some b \<Rightarrow> b"
  have "direction_bits ds1 OR (?a OR direction_bits ds2) = ?a OR (direction_bits ds1 OR direction_bits ds2)"
    by (rule or.left_commute)
  with direction_bits_absorb [OF \<open>d \<in> set ds1\<close>] ih show ?case by simp
qed

lemma direction_bits_append: "direction_bits (ds1 @ ds2) = direction_bits ds1 OR direction_bits ds2"
  by (induction ds1) (simp_all add: or.assoc)

lemma add_flame_twice:
  assumes "is_valid_position t p" "NONE \<notin> set ds1" "NONE \<notin> set ds2"
    and "add_flame t p ds1 ch = Inr ch1"
  shows "add_flame t p ds2 ch1 =
           Inr (AList.update p (glyph (mask_at ch p OR direction_bits ds1 OR direction_bits ds2)) ch)"
proof -
  let ?m = "mask_at ch p OR direction_bits ds1"
  have m: "?m < 16" by (intro or_lt16 mask_at_lt16 direction_bits_lt16)
  from assms(4) have ch1: "ch1 = AList.update p (glyph ?m) ch"
    by (simp add: add_flame_valid [OF assms(1,2)])
  show ?thesis
    by (simp add: add_flame_valid [OF assms(1,3)] ch1 mask_at_update_same [OF m] update_last or.assoc)
qed

text \<open>
  Claim C4.  Merging flame directions into a cell of the change-set is idempotent and
  commutative: merging the same direction set twice gives the change-set of merging it
  once; merging two direction sets in either order gives the same change-set, whose
  entry is the glyph of the union of all direction bits (those already recorded and
  both contributions); and a later contribution that is narrower than an earlier one
  leaves the earlier result as it is.
\<close>

theorem add_flame_merge_idempotent_commutative:
  assumes "NONE \<notin> set ds1" and "NONE \<notin> set ds2"
  shows "\<exists>ch1 ch2 ch12.
           add_flame t p ds1 ch = Inr ch1 \<and> add_flame t p ds2 ch = Inr ch2 \<and>
           add_flame t p ds1 ch1 = Inr ch1 \<and>
           add_flame t p ds2 ch1 = Inr ch12 \<and> add_flame t p ds1 ch2 = Inr ch12 \<and>
           (is_valid_position t p \<longrightarrow>
              map_of ch12 p = map_of flame_tokens (mask_at ch p OR direction_bits (ds1 @ ds2))) \<and>
           (set ds2 \<subseteq> set ds1 \<longrightarrow> ch12 = ch1)"
proof (cases "is_valid_position t p")
  case False
  then show ?thesis by (simp add: add_flame_invalid)
next
  case v: True
  let ?m = "mask_at ch p"
  let ?b1 = "direction_bits ds1" and ?b2 = "direction_bits ds2"
  let ?ch1 = "AList.update p (glyph (?m OR ?b1)) ch"
  let ?ch2 = "AList.update p (glyph (?m OR ?b2)) ch"
  let ?ch12 = "AList.update p (glyph (?m OR ?b1 OR ?b2)) ch"
  have lt: "?m OR ?b1 OR ?b2 < 16" by (intro or_lt16 mask_at_lt16 direction_bits_lt16)
  have a1: "add_flame t p ds1 ch = Inr ?ch1" by (rule add_flame_valid [OF v assms(1)])
  have a2: "add_flame t p ds2 ch = Inr ?ch2" by (rule add_flame_valid [OF v assms(2)])
  have a11: "add_flame t p ds1 ?ch1 = Inr ?ch1"
    using add_flame_twice [OF v assms(1) assms(1) a1] by (simp add: or.assoc)
  have a12: "add_flame t p ds2 ?ch1 = Inr ?ch12"
    by (rule add_flame_twice [OF v assms(1) assms(2) a1])
  have a21: "add_flame t p ds1 ?ch2 = Inr ?ch12"
    using add_flame_twice [OF v assms(2) assms(1) a2] by (simp add: or.assoc or.commute)
  have g: "map_of ?ch12 p = map_of flame_tokens (?m OR direction_bits (ds1 @ ds2))"
    using flame_tokens_lookup [OF lt] by (simp add: update_conv' direction_bits_append or.assoc)
  have n: "set ds2 \<subseteq> set ds1 \<longrightarrow> ?ch12 = ?ch1"
    by (auto simp: or.assoc direction_bits_subset)
  from a1 a2 a11 a12 a21 g n show ?thesis by blast
qed

theorem add_flame_merge_idempotent_commutative_witness:
  "NONE \<notin> set [UP, DOWN] \<and> NONE \<notin> set [DOWN] \<and>
   (\<exists>ch1 ch2 ch12.
      add_flame row2 (Position 1 0) [UP, DOWN] [(Position 1 0, Token [0x2574])] = Inr ch1 \<and>
      add_flame row2 (Position 1 0) [DOWN] [(Position 1 0, Token [0x2574])] = Inr ch2 \<and>
      add_flame row2 (Position 1 0) [UP, DOWN] ch1 = Inr ch1 \<and>
      add_flame row2 (Position 1 0) [DOWN] ch1 = Inr ch12 \<and>
      add_flame row2 (Position 1 0) [UP, DOWN] ch2 = Inr ch12 \<and>
      map_of ch12 (Position 1 0) = Some (Token [0x2524]) \<and> ch12 = ch1)"
proof -
  have h: "NONE \<notin> set [UP, DOWN]" "NONE \<notin> set [DOWN]" by simp_all
  have v: "is_valid_position row2 (Position 1 0)" by (simp add: row2_def eval_simps)
  have m: "map_of flame_tokens
             (mask_at [(Position 1 0, Token [0x2574])] (Position 1 0) OR direction_bits ([UP, DOWN] @ [DOWN]))
           = Some (Token [0x2524])"
    by (simp add: mask_at_def existing_mask_of_def flame_tokens_def)
  from add_flame_merge_idempotent_commutative [OF h, of row2 "Position 1 0" "[(Position 1 0, Token [0x2574])]"]
  show ?thesis using v m by auto
qed

subsection \<open>Propagation at the edge of the grid\<close>

lemma propagate_edge:
  assumes v: "is_valid_position t c" and card: "d \<noteq> NONE"
    and np: "get_new_position_from c d = Inr np" and out: "\<not> is_valid_position t np"
    and tok: "get_token t c = Inr tok" and nw: "tok \<noteq> WALL"
    and nb: "\<not> (tok = BOMB \<and> map_of ch c = None)"
  shows "propagate t c d (Suc n) ch =
           Inr (AList.update c
                  (glyph (mask_at ch c OR direction_bits (if n = 0 then [opposite d] else [d, opposite d])))
                  ch)"
proof -
  have ds: "NONE \<notin> set (if n = 0 then [opposite d] else [d, opposite d])" using card by auto
  show ?thesis
    by (simp add: propagate_open [OF tok nw nb] add_flame_valid [OF v ds] np out del: direction_bits.simps)
qed

text \<open>
  Claim C6 says that propagation stops \<^emph>\<open>without marking the current cell\<close> when the
  next position is outside the grid.  The code marks the current cell first and looks at
  the next position afterwards: on the 2 by 1 grid with a bomb at \<open>(0, 0)\<close>, the
  propagation to the right reaches \<open>(1, 0)\<close>, whose right neighbour \<open>(2, 0)\<close> is outside
  the grid, and \<open>(1, 0)\<close> gets a flame entry all the same.
\<close>

theorem propagate_edge_marks_current_counterexample:
  "is_valid_position row2 (Position 1 0) \<and>
   get_new_position_from (Position 1 0) RIGHT = Inr (Position 2 0) \<and>
   \<not> is_valid_position row2 (Position 2 0) \<and>
   map_of [(Position 0 0, Token [0x253C])] (Position 1 0) = None \<and>
   propagate row2 (Position 1 0) RIGHT BOMB_SIZE [(Position 0 0, Token [0x253C])]
     = Inr [(Position 0 0, Token [0x253C]), (Position 1 0, Token [0x2500])] \<and>
   detonate (Position 0 0) row2
     = Inr [(Position 0 0, Token [0x253C]), (Position 1 0, Token [0x2500])]"
  by (simp add: row2_def eval_simps)

text \<open>
  Claim C6, amended.  When the position one step further is outside the grid,
  propagation in that direction stops after marking the current cell: a current cell
  that is neither a wall nor a bomb still to be detonated receives the glyph of its
  recorded mask merged with this step's direction bits, and the entry of every other
  position is left as it was.
\<close>

theorem propagate_stops_after_marking_at_edge:
  assumes "is_valid_position t c" and "d \<noteq> NONE"
    and "get_new_position_from c d = Inr np" and "\<not> is_valid_position t np"
    and "get_token t c = Inr tok" and "tok \<noteq> WALL"
    and "\<not> (tok = BOMB \<and> map_of ch c = None)"
  shows "\<exists>r. propagate t c d (Suc n) ch = Inr r \<and>
           map_of r c = map_of flame_tokens
              (mask_at ch c OR direction_bits (if n = 0 then [opposite d] else [d, opposite d])) \<and>
           (\<forall>q. q \<noteq> c \<longrightarrow> map_of r q = map_of ch q)"
proof -
  let ?m = "mask_at ch c OR direction_bits (if n = 0 then [opposite d] else [d, opposite d])"
  have "?m < 16" by (intro or_lt16 mask_at_lt16 direction_bits_lt16)
  then have "map_of flame_tokens ?m = Some (glyph ?m)" by (rule flame_tokens_lookup)
  then show ?thesis
    by (simp add: propagate_edge [OF assms] update_conv' del: direction_bits.simps)
qed

theorem propagate_stops_after_marking_at_edge_witness:
  "is_valid_position row2 (Position 1 0) \<and> RIGHT \<noteq> NONE \<and>
   get_new_position_from (Position 1 0) RIGHT = Inr (Position 2 0) \<and>
   \<not> is_valid_position row2 (Position 2 0) \<and>
   get_token row2 (Position 1 0) = Inr EMPTY \<and> EMPTY \<noteq> WALL \<and>
   \<not> (EMPTY = BOMB \<and> map_of [(Position 0 0, Token [0x253C])] (Position 1 0) = None) \<and>
   (\<exists>r. propagate row2 (Position 1 0) RIGHT (Suc 2) [(Position 0 0, Token [0x253C])] = Inr r \<and>
        map_of r (Position 1 0) = Some (Token [0x2500]) \<and>
        map_of r (Position 0 0) = Some (Token [0x253C]))"
proof -
  have h: "is_valid_position row2 (Position 1 0)" "RIGHT \<noteq> NONE"
    "get_new_position_from (Position 1 0) RIGHT = Inr (Position 2 0)"
    "\<not> is_valid_position row2 (Position 2 0)"
    "get_token row2 (Position 1 0) = Inr EMPTY" "EMPTY \<noteq> WALL"
    "\<not> (EMPTY = BOMB \<and> map_of [(Position 0 0, Token [0x253C])] (Position 1 0) = None)"
    by (simp_all add: row2_def get_token_def loc_to_index_def is_valid_position_def py_index_def)
  have m: "map_of flame_tokens
             (mask_at [(Position 0 0, Token [0x253C])] (Position 1 0) OR
              direction_bits (if (2::nat) = 0 then [opposite RIGHT] else [RIGHT, opposite RIGHT]))
           = Some (Token [0x2500])"
    by (simp add: mask_at_def flame_tokens_def)
  from propagate_stops_after_marking_at_edge [OF h, of 2] obtain r where
    r: "propagate row2 (Position 1 0) RIGHT (Suc 2) [(Position 0 0, Token [0x253C])] = Inr r"
      "map_of r (Position 1 0) = map_of flame_tokens
             (mask_at [(Position 0 0, Token [0x253C])] (Position 1 0) OR
              direction_bits (if (2::nat) = 0 then [opposite RIGHT] else [RIGHT, opposite RIGHT]))"
      "\<forall>q. q \<noteq> Position 1 0 \<longrightarrow> map_of r q = map_of [(Position 0 0, Token [0x253C])] q"
    by blast
  from r(3) have "map_of r (Position 0 0) = Some (Token [0x253C])" by simp
  with h r(1,2) m show ?thesis by auto
qed

subsection \<open>The batch update\<close>

lemma index_inj:
  assumes "is_valid_position t p" "is_valid_position t q"
    and "y p * width t + x p = y q * width t + x q"
  shows "p = q"
proof -
  from assms(1,2) have b: "0 \<le> x p" "x p < width t" "0 \<le> x q" "x q < width t"
    by (simp_all add: valid_iff)
  have "(y p * width t + x p) mod width t = x p" "(y q * width t + x q) mod width t = x q"
    using b by simp_all
  with assms(3) have xx: "x p = x q" by simp
  have "(y p * width t + x p) div width t = y p" "(y q * width t + x q) div width t = y q"
    using b by simp_all
  with assms(3) have "y p = y q" by simp
  with xx show ?thesis by (simp add: position.expand)
qed

lemma valid_dims:
  "width t' = width t \<Longrightarrow> height t' = height t \<Longrightarrow> is_valid_position t' p = is_valid_position t p"
  by (simp add: valid_iff)

lemma update_step:
  assumes wf: "wf_terrain t" and v: "is_valid_position t q"
  shows "update t ((q, tok) # rest)
           = update (t\<lparr>cells := (cells t)[nat (y q * width t + x q) := tok]\<rparr>) rest"
proof -
  from index_in_range [OF v] wf
  have "0 \<le> y q * width t + x q" "y q * width t + x q < int (length (cells t))"
    by (simp_all add: wf_terrain_def)
  with v show ?thesis by (simp add: loc_to_index_def py_index_def)
qed

lemma tok_at_set_cell:
  assumes wf: "wf_terrain t" and vq: "is_valid_position t q" and vp: "is_valid_position t p"
  shows "tok_at (t\<lparr>cells := (cells t)[nat (y q * width t + x q) := tok]\<rparr>) p
           = (if p = q then tok else tok_at t p)"
proof (cases "p = q")
  case True
  from index_in_range [OF vq] wf have "nat (y q * width t + x q) < length (cells t)"
    by (simp add: wf_terrain_def)
  with True show ?thesis by (simp add: tok_at_def)
next
  case False
  with index_inj [OF vp vq] have ne: "y p * width t + x p \<noteq> y q * width t + x q" by blast
  from index_in_range(1) [OF vp] index_in_range(1) [OF vq] ne
  have "nat (y p * width t + x p) \<noteq> nat (y q * width t + x q)" by simp
  with False show ?thesis by (simp add: tok_at_def)
qed

lemma update_ok:
  assumes "wf_terrain t" "distinct (map fst ch)" "\<forall>p \<in> set (map fst ch). is_valid_position t p"
  shows "\<exists>t'. update t ch = Inr t' \<and> wf_terrain t' \<and> width t' = width t \<and> height t' = height t \<and>
           (\<forall>p. is_valid_position t p \<longrightarrow>
                tok_at t' p = (case map_of ch p of Some tok \<Rightarrow> tok | None \<Rightarrow> tok_at t p))"
  using assms
proof (induction ch arbitrary: t)
  case Nil
  then show ?case by simp
next
  case (Cons a rest)
  obtain q tok where a: "a = (q, tok)" by (cases a)
  let ?t1 = "t\<lparr>cells := (cells t)[nat (y q * width t + x q) := tok]\<rparr>"
  from Cons.prems a have vq: "is_valid_position t q" and nq: "q \<notin> set (map fst rest)"
    and dr: "distinct (map fst rest)" and vr: "\<forall>p \<in> set (map fst rest). is_valid_position t p"
    by auto
  have wf1: "wf_terrain ?t1" using Cons.prems(1) by (simp add: wf_terrain_def)
  have dims: "width ?t1 = width t" "height ?t1 = height t" by simp_all
  have vr1: "\<forall>p \<in> set (map fst rest). is_valid_position ?t1 p"
    using vr by (simp add: valid_dims [OF dims])
  have "\<exists>t'. update ?t1 rest = Inr t' \<and> wf_terrain t' \<and>
          width t' = width ?t1 \<and> height t' = height ?t1 \<and>
          (\<forall>p. is_valid_position ?t1 p \<longrightarrow>
                tok_at t' p = (case map_of rest p of Some v \<Rightarrow> v | None \<Rightarrow> tok_at ?t1 p))"
    by (rule Cons.IH [OF wf1 dr vr1])
  then obtain t' where
    u: "update ?t1 rest = Inr t'" and wf': "wf_terrain t'"
    and d1: "width t' = width ?t1" "height t' = height ?t1"
    and rd: "\<forall>p. is_valid_position ?t1 p \<longrightarrow>
                tok_at t' p = (case map_of rest p of Some v \<Rightarrow> v | None \<Rightarrow> tok_at ?t1 p)"
    by blast
  from d1 dims have d': "width t' = width t" "height t' = height t" by simp_all
  have "update t (a # rest) = Inr t'"
    using update_step [OF Cons.prems(1) vq] u a by simp
  moreover have "\<forall>p. is_valid_position t p \<longrightarrow>
      tok_at t' p = (case map_of (a # rest) p of Some v \<Rightarrow> v | None \<Rightarrow> tok_at t p)"
  proof (intro allI impI)
    fix p assume vp: "is_valid_position t p"
    then have "is_valid_position ?t1 p" by (simp add: valid_dims [OF dims])
    with rd have e: "tok_at t' p = (case map_of rest p of Some v \<Rightarrow> v | None \<Rightarrow> tok_at ?t1 p)"
      by blast
    show "tok_at t' p = (case map_of (a # rest) p of Some v \<Rightarrow> v | None \<Rightarrow> tok_at t p)"
    proof (cases "p = q")
      case True
      from nq have "map_of rest q = None" by (simp add: map_of_eq_None_iff)
      with e True tok_at_set_cell [OF Cons.prems(1) vq vq] a show ?thesis by simp
    next
      case False
      with e tok_at_set_cell [OF Cons.prems(1) vq vp] a show ?thesis
        by (simp split: option.splits)
    qed
  qed
  ultimately show ?case using wf' d' by blast
qed

definition keys_ok :: "terrain \<Rightarrow> changes \<Rightarrow> bool" where
  "keys_ok t ch \<longleftrightarrow> distinct (map fst ch) \<and> (\<forall>p \<in> set (map fst ch). is_valid_position t p)"

lemma keys_ok_update:
  "keys_ok t ch \<Longrightarrow> is_valid_position t c \<Longrightarrow> keys_ok t (AList.update c tok ch)"
  by (auto simp: keys_ok_def distinct_update update_keys)

lemma stable_keys_ok: "stable t (keys_ok t)"
  unfolding stable_def by (blast intro: keys_ok_update get_token_valid)

lemma detonate_keys_ok:
  assumes "wf_terrain t" "is_valid_position t pos"
  shows "\<exists>ch. detonate pos t = Inr ch \<and> keys_ok t ch"
proof -
  have k0: "keys_ok t []" by (simp add: keys_ok_def)
  have tok: "get_token t pos = Inr (tok_at t pos)" by (rule get_token_wf [OF assms])
  show ?thesis
  proof (cases "tok_at t pos = BOMB")
    case True
    with tok have "get_token t pos = Inr BOMB" by simp
    from engine_stable(2) [OF assms(1) stable_keys_ok this k0] show ?thesis
      using tok True by (simp add: detonate_def)
  next
    case False
    with tok k0 show ?thesis by (simp add: detonate_def)
  qed
qed

text \<open>
  Claim C8.  Round trip: on every grid and for every valid starting position (a bomb
  position in particular), \<open>detonate\<close> returns a change-set all of whose keys are valid
  positions, the batch \<open>update\<close> of the grid with it succeeds, and reading the updated
  grid at each changed position gives exactly the marker that the change-set stores for
  it; the cells that are not keys keep their markers.
\<close>

theorem detonate_update_round_trip:
  assumes "wf_terrain t" and "is_valid_position t pos"
  shows "\<exists>ch t'. detonate pos t = Inr ch \<and> update t ch = Inr t' \<and>
           (\<forall>(p, tok) \<in> set ch. is_valid_position t p \<and> get_token t' p = Inr tok) \<and>
           (\<forall>p. map_of ch p = None \<longrightarrow> get_token t' p = get_token t p)"
proof -
  from detonate_keys_ok [OF assms] obtain ch where
    ch: "detonate pos t = Inr ch" and k: "keys_ok t ch" by blast
  from k have dist: "distinct (map fst ch)" and val: "\<forall>p \<in> set (map fst ch). is_valid_position t p"
    by (simp_all add: keys_ok_def)
  from update_ok [OF assms(1) dist val] obtain t' where
    u: "update t ch = Inr t'" and wf': "wf_terrain t'"
    and d': "width t' = width t" "height t' = height t"
    and rd: "\<forall>p. is_valid_position t p \<longrightarrow>
                tok_at t' p = (case map_of ch p of Some tok \<Rightarrow> tok | None \<Rightarrow> tok_at t p)"
    by blast
  have a: "\<forall>(p, tok) \<in> set ch. is_valid_position t p \<and> get_token t' p = Inr tok"
  proof (clarify)
    fix p tok assume m: "(p, tok) \<in> set ch"
    with val have vp: "is_valid_position t p" by force
    then have vp': "is_valid_position t' p" by (simp add: valid_dims [OF d'])
    have "map_of ch p = Some tok" by (rule map_of_is_SomeI [OF dist m])
    with rd vp have "tok_at t' p = tok" by simp
    with get_token_wf [OF wf' vp'] vp
    show "is_valid_position t p \<and> get_token t' p = Inr tok" by simp
  qed
  have b: "\<forall>p. map_of ch p = None \<longrightarrow> get_token t' p = get_token t p"
  proof (intro allI impI)
    fix p assume n: "map_of ch p = None"
    show "get_token t' p = get_token t p"
    proof (cases "is_valid_position t p")
      case True
      then have vp': "is_valid_position t' p" by (simp add: valid_dims [OF d'])
      from rd True n have "tok_at t' p = tok_at t p" by simp
      with get_token_wf [OF wf' vp'] get_token_wf [OF assms(1) True] show ?thesis by simp
    next
      case False
      then have "\<not> is_valid_position t' p" by (simp add: valid_dims [OF d'])
      with False show ?thesis by (simp add: get_token_invalid)
    qed
  qed
  from ch u a b show ?thesis by blast
qed

theorem detonate_update_round_trip_witness:
  "wf_terrain row2 \<and> is_valid_position row2 (Position 0 0) \<and>
   (\<exists>ch t'. detonate (Position 0 0) row2 = Inr ch \<and> update row2 ch = Inr t' \<and>
      ch = [(Position 0 0, Token [0x253C]), (Position 1 0, Token [0x2500])] \<and>
      get_token t' (Position 0 0) = Inr (Token [0x253C]) \<and>
      get_token t' (Position 1 0) = Inr (Token [0x2500]))"
proof -
  have h: "wf_terrain row2" "is_valid_position row2 (Position 0 0)"
    by (simp_all add: row2_def wf_terrain_def is_valid_position_def)
  have d: "detonate (Position 0 0) row2
             = Inr [(Position 0 0, Token [0x253C]), (Position 1 0, Token [0x2500])]"
    by (simp add: row2_def eval_simps)
  from detonate_update_round_trip [OF h] d obtain t' where
    "update row2 [(Position 0 0, Token [0x253C]), (Position 1 0, Token [0x2500])] = Inr t'"
    "\<forall>(p, tok) \<in> set [(Position 0 0, Token [0x253C]), (Position 1 0, Token [0x2500])].
        is_valid_position row2 p \<and> get_token t' p = Inr tok"
    by auto
  with h d show ?thesis by auto
qed

subsection \<open>What the engine reads from the terrain\<close>

text \<open>
  The engine compares a cell's token with \<open>Token.WALL\<close> and \<open>Token.BOMB\<close> and does nothing
  else with it.  \<open>read_kind\<close> is that observation of a cell.
\<close>

definition read_kind :: "terrain \<Rightarrow> position \<Rightarrow> error + bool \<times> bool" where
  "read_kind t p = (case get_token t p of Inl e \<Rightarrow> Inl e | Inr tok \<Rightarrow> Inr (tok = WALL, tok = BOMB))"

lemma add_flame_dims:
  "width t' = width t \<Longrightarrow> height t' = height t \<Longrightarrow> add_flame t' p ds ch = add_flame t p ds ch"
  by (simp add: add_flame_def valid_iff)

lemma read_kind_cases:
  assumes "read_kind t' p = read_kind t p"
  obtains (err) e where "get_token t p = Inl e" "get_token t' p = Inl e"
  | (tok) tok tok' where "get_token t p = Inr tok" "get_token t' p = Inr tok'"
      "tok' = WALL \<longleftrightarrow> tok = WALL" "tok' = BOMB \<longleftrightarrow> tok = BOMB"
  using assms by (auto simp: read_kind_def split: sum.splits)

lemma engine_same_kinds:
  "width t' = width t \<Longrightarrow> height t' = height t \<Longrightarrow> \<forall>p. read_kind t' p = read_kind t p \<Longrightarrow>
     propagate t' c d n ch = propagate t c d n ch"
  "width t' = width t \<Longrightarrow> height t' = height t \<Longrightarrow> \<forall>p. read_kind t' p = read_kind t p \<Longrightarrow>
     detonate_at t' c1 ch1 = detonate_at t c1 ch1"
  "width t' = width t \<Longrightarrow> height t' = height t \<Longrightarrow> \<forall>p. read_kind t' p = read_kind t p \<Longrightarrow>
     detonate_loop t' c2 ds ch2 = detonate_loop t c2 ds ch2"
proof (induct t c d n ch and t c1 ch1 and t c2 ds ch2 rule: propagate_detonate_at_detonate_loop.induct)
  case (1 t current incoming changes)
  show ?case by (simp add: propagate.simps)
next
  case (2 t current incoming n changes)
  note w = \<open>width t' = width t\<close> and h = \<open>height t' = height t\<close>
    and k = \<open>\<forall>p. read_kind t' p = read_kind t p\<close>
  from k have "read_kind t' current = read_kind t current" by blast
  then show ?case
  proof (cases rule: read_kind_cases)
    case (err e)
    then show ?thesis by (simp add: propagate.simps)
  next
    case (tok tok tok')
    show ?thesis
    proof (cases "tok = WALL")
      case True
      with tok show ?thesis by (simp add: propagate_wall)
    next
      case nw: False
      with tok have nw': "tok' \<noteq> WALL" by simp
      show ?thesis
      proof (cases "tok = BOMB \<and> map_of changes current = None")
        case True
        with tok have b: "get_token t current = Inr BOMB" "get_token t' current = Inr BOMB" by simp_all
        from "2.hyps"(1) [OF tok(1) nw True w h k] True show ?thesis
          by (simp add: propagate_chain b)
      next
        case nb: False
        with tok have nb': "\<not> (tok' = BOMB \<and> map_of changes current = None)" by simp
        let ?ds = "if n = 0 then [opposite incoming] else [incoming, opposite incoming]"
        have af: "add_flame t' current ?ds changes = add_flame t current ?ds changes"
          by (rule add_flame_dims [OF w h])
        show ?thesis
        proof (cases "add_flame t current ?ds changes")
          case (Inl e)
          with af show ?thesis
            by (simp add: propagate_open [OF tok(1) nw nb] propagate_open [OF tok(2) nw' nb'])
        next
          case (Inr cha)
          show ?thesis
          proof (cases "get_new_position_from current incoming")
            case (Inl e)
            with af Inr show ?thesis
              by (simp add: propagate_open [OF tok(1) nw nb] propagate_open [OF tok(2) nw' nb'])
          next
            case np: (Inr np)
            have v: "is_valid_position t' np = is_valid_position t np"
              by (rule valid_dims [OF w h])
            show ?thesis
            proof (cases "is_valid_position t np")
              case True
              have af2: "add_flame t current
                  (if Suc n = 1 then [opposite incoming] else [incoming, opposite incoming]) changes = Inr cha"
                using Inr by simp
              from "2.hyps"(2) [OF tok(1) nw nb af2 np True w h k]
              show ?thesis using af Inr np v True
                by (simp add: propagate_open [OF tok(1) nw nb] propagate_open [OF tok(2) nw' nb'])
            next
              case False
              then show ?thesis using af Inr np v
                by (simp add: propagate_open [OF tok(1) nw nb] propagate_open [OF tok(2) nw' nb'])
            qed
          qed
        qed
      qed
    qed
  qed
next
  case (3 t center changes)
  note w = \<open>width t' = width t\<close> and h = \<open>height t' = height t\<close>
    and k = \<open>\<forall>p. read_kind t' p = read_kind t p\<close>
  have af: "add_flame t' center [UP, DOWN, LEFT, RIGHT] changes
              = add_flame t center [UP, DOWN, LEFT, RIGHT] changes"
    by (rule add_flame_dims [OF w h])
  show ?case
  proof (cases "add_flame t center [UP, DOWN, LEFT, RIGHT] changes")
    case (Inl e)
    with af show ?thesis by (simp add: detonate_at.simps)
  next
    case (Inr cha)
    from "3.hyps" [OF Inr w h k] af Inr show ?thesis by (simp add: detonate_at.simps)
  qed
next
  case (4 t center changes)
  show ?case by (simp add: detonate_loop.simps)
next
  case (5 t center d ds changes)
  note w = \<open>width t' = width t\<close> and h = \<open>height t' = height t\<close>
    and k = \<open>\<forall>p. read_kind t' p = read_kind t p\<close>
  show ?case
  proof (cases "get_new_position_from center d")
    case (Inl e)
    then show ?thesis by (simp add: detonate_loop.simps)
  next
    case np: (Inr np)
    have v: "is_valid_position t' np = is_valid_position t np"
      by (rule valid_dims [OF w h])
    have first: "(if is_valid_position t' np then propagate t' np d BOMB_SIZE changes else Inr changes)
             = (if is_valid_position t np then propagate t np d BOMB_SIZE changes else Inr changes)"
    proof (cases "is_valid_position t np")
      case True
      from "5.hyps"(1) [OF np True w h k] True v show ?thesis by simp
    next
      case False
      with v show ?thesis by simp
    qed
    show ?thesis
    proof (cases "if is_valid_position t np then propagate t np d BOMB_SIZE changes else Inr changes")
      case (Inl e)
      with first np show ?thesis by (simp add: detonate_loop.simps)
    next
      case (Inr cha)
      from "5.hyps"(2) [OF np Inr w h k] first np Inr show ?thesis
        by (simp add: detonate_loop.simps)
    qed
  qed
qed

lemma detonate_same_kinds:
  assumes "width t' = width t" "height t' = height t" "\<forall>p. read_kind t' p = read_kind t p"
  shows "detonate pos t' = detonate pos t"
proof -
  from assms(3) have "read_kind t' pos = read_kind t pos" by blast
  then show ?thesis
  proof (cases rule: read_kind_cases)
    case (err e)
    then show ?thesis by (simp add: detonate_def)
  next
    case (tok tok tok')
    with engine_same_kinds(2) [OF assms, of pos "[]"] show ?thesis
      by (simp add: detonate_def)
  qed
qed

lemma FLAMES_not_wall_bomb: "g \<in> set FLAMES \<Longrightarrow> g \<noteq> WALL \<and> g \<noteq> BOMB"
  by (auto simp: FLAMES_def WALL_def BOMB_def)

text \<open>
  The engine does not read what flame glyph a cell holds: resetting such a cell to the
  empty marker changes nothing in what \<open>detonate\<close> returns.
\<close>

lemma stale_glyph_not_read:
  assumes "wf_terrain t" and "get_token t q = Inr g" and "g \<in> set FLAMES"
    and "update t [(q, EMPTY)] = Inr t0"
  shows "detonate pos t = detonate pos t0"
proof -
  have vq: "is_valid_position t q" using assms(2) by (rule get_token_valid)
  let ?t1 = "t\<lparr>cells := (cells t)[nat (y q * width t + x q) := EMPTY]\<rparr>"
  have "update t [(q, EMPTY)] = Inr ?t1" by (simp only: update_step [OF assms(1) vq] update.simps(1))
  with assms(4) have t0: "t0 = ?t1" by simp
  have w: "width t0 = width t" and h: "height t0 = height t" by (simp_all add: t0)
  have wf0: "wf_terrain t0" using assms(1) by (simp add: t0 wf_terrain_def)
  from assms(1,2) vq have g: "tok_at t q = g" by (simp add: get_token_wf)
  have "\<forall>p. read_kind t0 p = read_kind t p"
  proof
    fix p
    show "read_kind t0 p = read_kind t p"
    proof (cases "is_valid_position t p")
      case True
      then have v0: "is_valid_position t0 p" by (simp add: valid_dims [OF w h])
      have "tok_at t0 p = (if p = q then EMPTY else tok_at t p)"
        unfolding t0 by (rule tok_at_set_cell [OF assms(1) vq True])
      with g FLAMES_not_wall_bomb [OF assms(3)] show ?thesis
        by (simp add: read_kind_def get_token_wf [OF wf0 v0] get_token_wf [OF assms(1) True])
    next
      case False
      then have "\<not> is_valid_position t0 p" by (simp add: valid_dims [OF w h])
      with False show ?thesis by (simp add: read_kind_def get_token_invalid)
    qed
  qed
  from detonate_same_kinds [OF w h this] show ?thesis by simp
qed

subsection \<open>Nesting depth of the recursion\<close>

text \<open>
  The three functions of the engine once more, with a bound on how deeply calls of
  \<open>_detonate\<close> may nest: each entry into \<open>_detonate\<close> uses up one level, and \<open>None\<close> says
  that the bound was exceeded.  Nothing else differs from the engine above.
\<close>

function propagate_within :: "nat \<Rightarrow> terrain \<Rightarrow> position \<Rightarrow> direction \<Rightarrow> nat \<Rightarrow> changes \<Rightarrow> (error + changes) option"
  and detonate_at_within :: "nat \<Rightarrow> terrain \<Rightarrow> position \<Rightarrow> changes \<Rightarrow> (error + changes) option"
  and detonate_loop_within :: "nat \<Rightarrow> terrain \<Rightarrow> position \<Rightarrow> direction list \<Rightarrow> changes \<Rightarrow> (error + changes) option"
where
  "propagate_within b t current incoming 0 changes = Some (Inr changes)"
| "propagate_within b t current incoming (Suc n) changes =
     (case get_token t current of
        Inl e \<Rightarrow> Some (Inl e)
      | Inr tok \<Rightarrow>
          if tok = WALL then Some (Inr (AList.update current EMPTY changes))
          else if tok = BOMB \<and> map_of changes current = None
          then detonate_at_within b t current changes
          else
            (case add_flame t current
                    (if Suc n = 1 then [opposite incoming] else [incoming, opposite incoming])
                    changes of
               Inl e \<Rightarrow> Some (Inl e)
             | Inr changes1 \<Rightarrow>
                 (case get_new_position_from current incoming of
                    Inl e \<Rightarrow> Some (Inl e)
                  | Inr next_pos \<Rightarrow>
                      if is_valid_position t next_pos
                      then propagate_within b t next_pos incoming n changes1
                      else Some (Inr changes1))))"
| "detonate_at_within 0 t center changes = None"
| "detonate_at_within (Suc b) t center changes =
     (case add_flame t center [UP, DOWN, LEFT, RIGHT] changes of
        Inl e \<Rightarrow> Some (Inl e)
      | Inr changes1 \<Rightarrow> detonate_loop_within b t center [UP, DOWN, LEFT, RIGHT] changes1)"
| "detonate_loop_within b t center [] changes = Some (Inr changes)"
| "detonate_loop_within b t center (d # ds) changes =
     (case get_new_position_from center d of
        Inl e \<Rightarrow> Some (Inl e)
      | Inr next_pos \<Rightarrow>
          (case (if is_valid_position t next_pos
                 then propagate_within b t next_pos d BOMB_SIZE changes
                 else Some (Inr changes)) of
             None \<Rightarrow> None
           | Some (Inl e) \<Rightarrow> Some (Inl e)
           | Some (Inr changes1) \<Rightarrow> detonate_loop_within b t center ds changes1))"
  by pat_completeness auto

fun within_measure ::
  "(nat \<times> terrain \<times> position \<times> direction \<times> nat \<times> changes) +
   (nat \<times> terrain \<times> position \<times> changes) +
   (nat \<times> terrain \<times> position \<times> direction list \<times> changes) \<Rightarrow> nat \<times> nat \<times> nat" where
  "within_measure (Inl (b, t, c, d, n, ch)) = (b, 1, n)"
| "within_measure (Inr (Inl (b, t, c, ch))) = (b, 0, 0)"
| "within_measure (Inr (Inr (b, t, c, ds, ch))) = (b, 2, length ds)"

termination propagate_within
  by (relation "inv_image (less_than <*lex*> less_than <*lex*> less_than) within_measure")
     (auto simp: BOMB_SIZE_def)

definition detonate_within :: "nat \<Rightarrow> position \<Rightarrow> terrain \<Rightarrow> (error + changes) option" where
  "detonate_within b pos t =
     (case get_token t pos of
        Inl e \<Rightarrow> Some (Inl e)
      | Inr tok \<Rightarrow> if tok = BOMB then detonate_at_within b t pos [] else Some (Inr []))"

declare propagate_within.simps [simp del] detonate_at_within.simps [simp del]
  detonate_loop_within.simps [simp del]

definition pending :: "terrain \<Rightarrow> changes \<Rightarrow> position set" where
  "pending t ch = {p. get_token t p = Inr BOMB \<and> map_of ch p = None}"

lemma finite_pending: "finite (pending t ch)"
  by (rule finite_subset [OF _ finite_valid_positions [of t]])
     (auto simp: pending_def dest: get_token_valid)

lemma pending_mono:
  "dom (map_of ch) \<subseteq> dom (map_of r) \<Longrightarrow> card (pending t r) \<le> card (pending t ch)"
  by (rule card_mono [OF finite_pending]) (auto simp: pending_def dom_def)

lemma pending_add_flame:
  assumes "add_flame t p ds ch = Inr r"
  shows "card (pending t r) \<le> card (pending t ch)"
proof (rule pending_mono)
  from add_flame_dom [OF assms] show "dom (map_of ch) \<subseteq> dom (map_of r)"
    by (auto split: if_splits)
qed

lemma pending_detonated:
  assumes b: "get_token t c = Inr BOMB" and n: "map_of ch c = None"
    and af: "add_flame t c ds ch = Inr r"
  shows "card (pending t r) < card (pending t ch)"
proof (rule psubset_card_mono [OF finite_pending])
  from b have v: "is_valid_position t c" by (rule get_token_valid)
  from add_flame_dom [OF af] v have d: "dom (map_of r) = insert c (dom (map_of ch))" by simp
  from b n have "c \<in> pending t ch" by (simp add: pending_def)
  moreover have "c \<notin> pending t r"
  proof -
    from d have "c \<in> dom (map_of r)" by simp
    then have "map_of r c \<noteq> None" by (simp add: domIff)
    then show ?thesis by (simp add: pending_def)
  qed
  moreover have "pending t r \<subseteq> pending t ch"
  proof -
    from d have "dom (map_of ch) \<subseteq> dom (map_of r)" by auto
    then show ?thesis by (auto simp: pending_def dom_def)
  qed
  ultimately show "pending t r \<subset> pending t ch" by blast
qed

lemma within_agrees:
  "\<forall>b. card (pending t ch) \<le> b \<longrightarrow> propagate_within b t c d n ch = Some (propagate t c d n ch)"
  "\<forall>b. get_token t c1 = Inr BOMB \<longrightarrow> map_of ch1 c1 = None \<longrightarrow> card (pending t ch1) \<le> b \<longrightarrow>
       detonate_at_within b t c1 ch1 = Some (detonate_at t c1 ch1)"
  "\<forall>b. card (pending t ch2) \<le> b \<longrightarrow>
       detonate_loop_within b t c2 ds ch2 = Some (detonate_loop t c2 ds ch2)"
proof (induct t c d n ch and t c1 ch1 and t c2 ds ch2 rule: propagate_detonate_at_detonate_loop.induct)
  case (1 t current incoming changes)
  show ?case by (simp add: propagate.simps propagate_within.simps)
next
  case (2 t current incoming n changes)
  show ?case
  proof (intro allI impI)
    fix b assume le: "card (pending t changes) \<le> b"
    show "propagate_within b t current incoming (Suc n) changes
            = Some (propagate t current incoming (Suc n) changes)"
    proof (cases "get_token t current")
      case (Inl e)
      then show ?thesis by (simp add: propagate.simps propagate_within.simps)
    next
      case tok: (Inr tok)
      show ?thesis
      proof (cases "tok = WALL")
        case True
        with tok show ?thesis by (simp add: propagate.simps propagate_within.simps)
      next
        case nw: False
        show ?thesis
        proof (cases "tok = BOMB \<and> map_of changes current = None")
          case True
          with tok have bt: "get_token t current = Inr BOMB" by simp
          from "2.hyps"(1) [OF tok nw True] bt True le
          have "detonate_at_within b t current changes = Some (detonate_at t current changes)"
            by blast
          with tok nw True show ?thesis by (simp add: propagate.simps propagate_within.simps)
        next
          case nb: False
          let ?ds = "if Suc n = 1 then [opposite incoming] else [incoming, opposite incoming]"
          have unf: "propagate_within b t current incoming (Suc n) changes =
             (case add_flame t current ?ds changes of
                Inl e \<Rightarrow> Some (Inl e)
              | Inr changes1 \<Rightarrow>
                 (case get_new_position_from current incoming of
                    Inl e \<Rightarrow> Some (Inl e)
                  | Inr next_pos \<Rightarrow>
                      if is_valid_position t next_pos
                      then propagate_within b t next_pos incoming n changes1
                      else Some (Inr changes1)))"
            using tok nw nb by (auto simp: propagate_within.simps)
          have unf': "propagate t current incoming (Suc n) changes =
             (case add_flame t current ?ds changes of
                Inl e \<Rightarrow> Inl e
              | Inr changes1 \<Rightarrow>
                 (case get_new_position_from current incoming of
                    Inl e \<Rightarrow> Inl e
                  | Inr next_pos \<Rightarrow>
                      if is_valid_position t next_pos
                      then propagate t next_pos incoming n changes1
                      else Inr changes1))"
            using tok nw nb by (auto simp: propagate.simps)
          show ?thesis
          proof (cases "add_flame t current ?ds changes")
            case (Inl e)
            then show ?thesis by (simp only: unf unf' sum.case)
          next
            case af: (Inr cha)
            show ?thesis
            proof (cases "get_new_position_from current incoming")
              case (Inl e)
              with af show ?thesis by (simp only: unf unf' sum.case)
            next
              case np: (Inr np)
              show ?thesis
              proof (cases "is_valid_position t np")
                case True
                from pending_add_flame [OF af] le have "card (pending t cha) \<le> b" by simp
                with "2.hyps"(2) [OF tok nw nb af np True]
                have "propagate_within b t np incoming n cha = Some (propagate t np incoming n cha)"
                  by blast
                with af np True show ?thesis by (simp only: unf unf' sum.case if_True)
              next
                case False
                with af np show ?thesis by (simp only: unf unf' sum.case if_False)
              qed
            qed
          qed
        qed
      qed
    qed
  qed
next
  case (3 t center changes)
  show ?case
  proof (intro allI impI)
    fix b assume bt: "get_token t center = Inr BOMB" and n: "map_of changes center = None"
      and le: "card (pending t changes) \<le> b"
    from bt n have "center \<in> pending t changes" by (simp add: pending_def)
    then have "card (pending t changes) \<noteq> 0" using finite_pending [of t changes] by auto
    with le obtain b' where b: "b = Suc b'" by (cases b) auto
    show "detonate_at_within b t center changes = Some (detonate_at t center changes)"
    proof (cases "add_flame t center [UP, DOWN, LEFT, RIGHT] changes")
      case (Inl e)
      then show ?thesis by (simp add: b detonate_at.simps detonate_at_within.simps)
    next
      case af: (Inr cha)
      from pending_detonated [OF bt n af] le b have "card (pending t cha) \<le> b'" by simp
      with "3.hyps" [OF af]
      have "detonate_loop_within b' t center [UP, DOWN, LEFT, RIGHT] cha
              = Some (detonate_loop t center [UP, DOWN, LEFT, RIGHT] cha)" by blast
      with af show ?thesis by (simp add: b detonate_at.simps detonate_at_within.simps)
    qed
  qed
next
  case (4 t center changes)
  show ?case by (simp add: detonate_loop.simps detonate_loop_within.simps)
next
  case (5 t center d ds changes)
  show ?case
  proof (intro allI impI)
    fix b assume le: "card (pending t changes) \<le> b"
    show "detonate_loop_within b t center (d # ds) changes
            = Some (detonate_loop t center (d # ds) changes)"
    proof (cases "get_new_position_from center d")
      case (Inl e)
      then show ?thesis by (simp add: detonate_loop.simps detonate_loop_within.simps)
    next
      case np: (Inr np)
      let ?first = "if is_valid_position t np then propagate t np d BOMB_SIZE changes else Inr changes"
      have first: "(if is_valid_position t np then propagate_within b t np d BOMB_SIZE changes
                    else Some (Inr changes)) = Some ?first"
      proof (cases "is_valid_position t np")
        case True
        with "5.hyps"(1) [OF np True] le show ?thesis by simp
      next
        case False
        then show ?thesis by simp
      qed
      show ?thesis
      proof (cases ?first)
        case (Inl e)
        with first np show ?thesis by (simp add: detonate_loop.simps detonate_loop_within.simps)
      next
        case r: (Inr cha)
        have "dom (map_of changes) \<subseteq> dom (map_of cha)"
        proof (cases "is_valid_position t np")
          case True
          with r have "propagate t np d BOMB_SIZE changes = Inr cha" by simp
          then show ?thesis by (rule propagate_grows)
        next
          case False
          with r show ?thesis by simp
        qed
        from pending_mono [OF this, of t] le have "card (pending t cha) \<le> b" by simp
        with "5.hyps"(2) [OF np r]
        have "detonate_loop_within b t center ds cha = Some (detonate_loop t center ds cha)"
          by blast
        with first np r show ?thesis by (simp add: detonate_loop.simps detonate_loop_within.simps)
      qed
    qed
  qed
qed

lemma card_valid_positions:
  assumes "wf_terrain t"
  shows "card {p. is_valid_position t p} \<le> length (cells t)"
proof (cases "0 < width t \<and> 0 < height t")
  case True
  have "{p. is_valid_position t p} \<subseteq> (\<lambda>(a, b). Position a b) ` ({0..<width t} \<times> {0..<height t})"
  proof
    fix p assume "p \<in> {p. is_valid_position t p}"
    then have "(x p, y p) \<in> {0..<width t} \<times> {0..<height t}" by (simp add: valid_iff)
    then have "(\<lambda>(a, b). Position a b) (x p, y p)
                 \<in> (\<lambda>(a, b). Position a b) ` ({0..<width t} \<times> {0..<height t})"
      by (rule imageI)
    then show "p \<in> (\<lambda>(a, b). Position a b) ` ({0..<width t} \<times> {0..<height t})" by simp
  qed
  then have "card {p. is_valid_position t p}
               \<le> card ((\<lambda>(a, b). Position a b) ` ({0..<width t} \<times> {0..<height t}))"
    by (intro card_mono) simp_all
  also have "\<dots> \<le> card ({0..<width t} \<times> {0..<height t})"
    by (rule card_image_le) simp
  also have "\<dots> = nat (width t) * nat (height t)" by (simp add: card_cartesian_product)
  also have "\<dots> = nat (width t * height t)" using True by (simp add: nat_mult_distrib)
  finally show ?thesis using assms by (simp add: wf_terrain_def)
next
  case False
  then have "{p. is_valid_position t p} = {}" by (auto simp: valid_iff)
  then show ?thesis by simp
qed

lemma card_bombs_le_cells:
  assumes "wf_terrain t"
  shows "card {p. get_token t p = Inr BOMB} \<le> length (cells t)"
proof -
  have "card {p. get_token t p = Inr BOMB} \<le> card {p. is_valid_position t p}"
    by (rule card_mono [OF finite_valid_positions]) (auto dest: get_token_valid)
  with card_valid_positions [OF assms] show ?thesis by simp
qed

definition bombs3 :: terrain where
  "bombs3 = \<lparr>width = 3, height = 1, cells = [BOMB, BOMB, EMPTY]\<rparr>"

text \<open>
  Claim C9.  \<open>detonate\<close> terminates on every grid and position.  The functions above
  are total: the step counter of a directional propagation starts at \<open>BOMB_SIZE = 3\<close> and
  decreases, and a bomb is detonated only while its cell is not a key of the change-set,
  which its own detonation makes it at once.  Hence calls of \<open>_detonate\<close> never nest
  deeper than the number of bomb cells of the grid, which is at most the number of cells:
  with that bound on the nesting depth the engine never runs into the bound and returns
  the result of \<open>detonate\<close>.
\<close>

theorem detonate_nesting_bounded_by_bombs:
  assumes "wf_terrain t" and "card {p. get_token t p = Inr BOMB} \<le> b"
  shows "detonate_within b pos t = Some (detonate pos t) \<and>
         card {p. get_token t p = Inr BOMB} \<le> length (cells t) \<and>
         detonate_within (length (cells t)) pos t = Some (detonate pos t)"
proof -
  have pe: "pending t [] = {p. get_token t p = Inr BOMB}" by (simp add: pending_def)
  have main: "detonate_within k pos t = Some (detonate pos t)"
    if k: "card {p. get_token t p = Inr BOMB} \<le> k" for k
  proof (cases "get_token t pos")
    case (Inl e)
    then show ?thesis by (simp add: detonate_within_def detonate_def)
  next
    case (Inr tok)
    show ?thesis
    proof (cases "tok = BOMB")
      case True
      with Inr have bt: "get_token t pos = Inr BOMB" by simp
      from within_agrees(2) [of t pos "[]"] bt k pe
      have "detonate_at_within k t pos [] = Some (detonate_at t pos [])" by simp
      with bt show ?thesis by (simp add: detonate_within_def detonate_def)
    next
      case False
      with Inr show ?thesis by (simp add: detonate_within_def detonate_def)
    qed
  qed
  from main [OF assms(2)] card_bombs_le_cells [OF assms(1)] main [OF card_bombs_le_cells [OF assms(1)]]
  show ?thesis by blast
qed

theorem detonate_nesting_bounded_by_bombs_witness:
  "wf_terrain bombs3 \<and> card {p. get_token bombs3 p = Inr BOMB} \<le> 3 \<and>
   detonate_within 3 (Position 0 0) bombs3 = Some (detonate (Position 0 0) bombs3) \<and>
   detonate (Position 0 0) bombs3
     = Inr [(Position 0 0, Token [0x253C]), (Position 1 0, Token [0x253C]),
            (Position 2 0, Token [0x2500])] \<and>
   detonate_within 1 (Position 0 0) bombs3 = None"
proof -
  have wf: "wf_terrain bombs3" by (simp add: bombs3_def wf_terrain_def)
  have c: "card {p. get_token bombs3 p = Inr BOMB} \<le> 3"
    using card_bombs_le_cells [OF wf] by (simp add: bombs3_def)
  have d: "detonate (Position 0 0) bombs3
     = Inr [(Position 0 0, Token [0x253C]), (Position 1 0, Token [0x253C]),
            (Position 2 0, Token [0x2500])]"
    by (simp add: bombs3_def eval_simps)
  have n: "detonate_within 1 (Position 0 0) bombs3 = None"
    by (simp add: bombs3_def detonate_within_def get_token_def loc_to_index_def
          is_valid_position_def py_index_def detonate_at_within.simps detonate_loop_within.simps
          propagate_within.simps add_flame_def BOMB_SIZE_Suc EMPTY_def BOMB_def WALL_def
          flame_tokens_def existing_mask_of_def)
  from detonate_nesting_bounded_by_bombs [OF wf c, of "Position 0 0"] wf c d n
  show ?thesis by simp
qed

subsection \<open>Straight lines on the grid\<close>

fun delta :: "direction \<Rightarrow> int \<times> int" where
  "delta UP = (0, - 1)"
| "delta DOWN = (0, 1)"
| "delta LEFT = (- 1, 0)"
| "delta RIGHT = (1, 0)"
| "delta NONE = (0, 0)"

text \<open>\<open>ahead p d k\<close> is the position reached from \<open>p\<close> by \<open>k\<close> steps in direction \<open>d\<close>.\<close>

definition ahead :: "position \<Rightarrow> direction \<Rightarrow> nat \<Rightarrow> position" where
  "ahead p d k = Position (x p + int k * fst (delta d)) (y p + int k * snd (delta d))"

lemma ahead_0 [simp]: "ahead p d 0 = p"
  by (simp add: ahead_def)

lemma get_new_position_from_ahead:
  "d \<noteq> NONE \<Longrightarrow> get_new_position_from p d = Inr (ahead p d 1)"
  by (cases d) (simp_all add: ahead_def)

lemma ahead_ahead: "ahead (ahead p d j) d k = ahead p d (j + k)"
  by (simp add: ahead_def algebra_simps)

lemma ahead_Suc: "ahead (ahead p d 1) d k = ahead p d (Suc k)"
  by (simp add: ahead_ahead)

lemma ahead_inj: "d \<noteq> NONE \<Longrightarrow> ahead p d j = ahead p d k \<longleftrightarrow> j = k"
  by (cases d) (auto simp: ahead_def)

lemma ahead_cross:
  "d \<noteq> NONE \<Longrightarrow> e \<noteq> NONE \<Longrightarrow> 0 < j \<Longrightarrow> ahead p d j = ahead p e k \<longleftrightarrow> d = e \<and> j = k"
  by (cases d; cases e) (auto simp: ahead_def)

subsection \<open>Propagation that sets off no further bomb\<close>

text \<open>
  One step of marking: what \<open>_propagate\<close> records for a cell, given the direction bits
  of the step.  A wall is recorded as cleared, any other cell gets the glyph of its
  recorded mask merged with the bits.
\<close>

definition touch :: "terrain \<Rightarrow> position \<times> nat \<Rightarrow> changes \<Rightarrow> changes" where
  "touch t pb ch =
     AList.update (fst pb)
       (if get_token t (fst pb) = Inr WALL then EMPTY else glyph (mask_at ch (fst pb) OR snd pb)) ch"

definition step_bits :: "direction \<Rightarrow> nat \<Rightarrow> nat" where
  "step_bits d n = direction_bits (if n = 0 then [opposite d] else [d, opposite d])"

text \<open>
  The cells a propagation visits and the bits it contributes to each, when it meets no
  bomb that is still to be detonated: it walks on until the step counter is used up, the
  next position is outside the grid, or it has cleared a wall.
\<close>

fun ray_touches :: "terrain \<Rightarrow> position \<Rightarrow> direction \<Rightarrow> nat \<Rightarrow> (position \<times> nat) list" where
  "ray_touches t c d 0 = []"
| "ray_touches t c d (Suc n) =
     (if get_token t c = Inr WALL then [(c, 0)]
      else (c, step_bits d n) #
           (if is_valid_position t (ahead c d 1) then ray_touches t (ahead c d 1) d n else []))"

definition loop_touches :: "terrain \<Rightarrow> position \<Rightarrow> direction list \<Rightarrow> (position \<times> nat) list" where
  "loop_touches t a ds =
     concat (map (\<lambda>e. if is_valid_position t (ahead a e 1)
                       then ray_touches t (ahead a e 1) e BOMB_SIZE else []) ds)"

definition blast_touches :: "terrain \<Rightarrow> position \<Rightarrow> (position \<times> nat) list" where
  "blast_touches t a = (a, 15) # loop_touches t a [UP, DOWN, LEFT, RIGHT]"

lemma loop_touches_Nil [simp]: "loop_touches t a [] = []"
  by (simp add: loop_touches_def)

lemma loop_touches_Cons:
  "loop_touches t a (e # ds) =
     (if is_valid_position t (ahead a e 1) then ray_touches t (ahead a e 1) e BOMB_SIZE else [])
     @ loop_touches t a ds"
  by (simp add: loop_touches_def)

lemma loop_touches_append: "loop_touches t a (ds1 @ ds2) = loop_touches t a ds1 @ loop_touches t a ds2"
  by (simp add: loop_touches_def)

lemma touch_recorded: "map_of ch p \<noteq> None \<Longrightarrow> map_of (touch t pb ch) p \<noteq> None"
  by (simp add: touch_def update_conv')

lemma fold_touch_recorded: "map_of ch p \<noteq> None \<Longrightarrow> map_of (fold (touch t) ts ch) p \<noteq> None"
proof (induction ts arbitrary: ch)
  case Nil
  then show ?case by simp
next
  case (Cons qb ts)
  from Cons.prems have "map_of (touch t qb ch) p \<noteq> None" by (rule touch_recorded)
  then have "map_of (fold (touch t) ts (touch t qb ch)) p \<noteq> None" by (rule Cons.IH)
  then show ?case by simp
qed

lemma touch_self_recorded: "map_of (touch t (p, b) ch) p \<noteq> None"
  by (simp add: touch_def update_conv')

lemma step_bits_cardinal: "d \<noteq> NONE \<Longrightarrow> NONE \<notin> set (if n = 0 then [opposite d] else [d, opposite d])"
  by auto

lemma propagate_free:
  assumes wf: "wf_terrain t" and card: "d \<noteq> NONE"
  shows "is_valid_position t c \<Longrightarrow>
         \<forall>p \<in> fst ` set (ray_touches t c d n). get_token t p = Inr BOMB \<longrightarrow> map_of ch p \<noteq> None \<Longrightarrow>
         propagate t c d n ch = Inr (fold (touch t) (ray_touches t c d n) ch)"
proof (induction n arbitrary: c ch)
  case 0
  show ?case by (simp add: propagate.simps)
next
  case (Suc n)
  note v = \<open>is_valid_position t c\<close>
  have tok: "get_token t c = Inr (tok_at t c)" by (rule get_token_wf [OF wf v])
  show ?case
  proof (cases "tok_at t c = WALL")
    case True
    with tok have w: "get_token t c = Inr WALL" by simp
    then show ?thesis by (simp add: propagate_wall touch_def)
  next
    case nw: False
    with tok have nw': "get_token t c \<noteq> Inr WALL" by simp
    let ?rest = "if is_valid_position t (ahead c d 1) then ray_touches t (ahead c d 1) d n else []"
    have rt: "ray_touches t c d (Suc n) = (c, step_bits d n) # ?rest" using nw' by simp
    from Suc.prems(2) rt have free_c: "get_token t c = Inr BOMB \<longrightarrow> map_of ch c \<noteq> None" by simp
    with tok have nb: "\<not> (tok_at t c = BOMB \<and> map_of ch c = None)" by auto
    let ?ch1 = "touch t (c, step_bits d n) ch"
    have af: "add_flame t c (if n = 0 then [opposite d] else [d, opposite d]) ch = Inr ?ch1"
      using nw' by (simp add: add_flame_valid [OF v step_bits_cardinal [OF card]] touch_def step_bits_def)
    have unf: "propagate t c d (Suc n) ch =
        (if is_valid_position t (ahead c d 1) then propagate t (ahead c d 1) d n ?ch1 else Inr ?ch1)"
      by (simp add: propagate_open [OF tok nw nb] af get_new_position_from_ahead [OF card])
    show ?thesis
    proof (cases "is_valid_position t (ahead c d 1)")
      case True
      have "\<forall>p \<in> fst ` set (ray_touches t (ahead c d 1) d n).
              get_token t p = Inr BOMB \<longrightarrow> map_of ?ch1 p \<noteq> None"
      proof (intro ballI impI)
        fix p assume "p \<in> fst ` set (ray_touches t (ahead c d 1) d n)" "get_token t p = Inr BOMB"
        with Suc.prems(2) rt True have "map_of ch p \<noteq> None" by auto
        then show "map_of ?ch1 p \<noteq> None" by (rule touch_recorded)
      qed
      from Suc.IH [OF True this] unf rt True show ?thesis by simp
    next
      case False
      with unf rt show ?thesis by simp
    qed
  qed
qed

lemma loop_free:
  assumes wf: "wf_terrain t"
  shows "NONE \<notin> set ds \<Longrightarrow>
         \<forall>p \<in> fst ` set (loop_touches t a ds). get_token t p = Inr BOMB \<longrightarrow> map_of ch p \<noteq> None \<Longrightarrow>
         detonate_loop t a ds ch = Inr (fold (touch t) (loop_touches t a ds) ch)"
proof (induction ds arbitrary: ch)
  case Nil
  show ?case by (simp add: detonate_loop.simps)
next
  case (Cons e ds)
  then have card: "e \<noteq> NONE" and rest: "NONE \<notin> set ds" by auto
  have np: "get_new_position_from a e = Inr (ahead a e 1)"
    by (rule get_new_position_from_ahead [OF card])
  show ?case
  proof (cases "is_valid_position t (ahead a e 1)")
    case True
    let ?ray = "ray_touches t (ahead a e 1) e BOMB_SIZE"
    let ?ch1 = "fold (touch t) ?ray ch"
    have lt: "loop_touches t a (e # ds) = ?ray @ loop_touches t a ds"
      using True by (simp only: loop_touches_Cons if_True)
    have "\<forall>p \<in> fst ` set ?ray. get_token t p = Inr BOMB \<longrightarrow> map_of ch p \<noteq> None"
      using Cons.prems(2) unfolding lt by auto
    from propagate_free [OF wf card True this]
    have first: "propagate t (ahead a e 1) e BOMB_SIZE ch = Inr ?ch1" .
    have "\<forall>p \<in> fst ` set (loop_touches t a ds). get_token t p = Inr BOMB \<longrightarrow> map_of ?ch1 p \<noteq> None"
    proof (intro ballI impI)
      fix p assume "p \<in> fst ` set (loop_touches t a ds)" "get_token t p = Inr BOMB"
      with Cons.prems(2) have "map_of ch p \<noteq> None" unfolding lt by auto
      then show "map_of ?ch1 p \<noteq> None" by (rule fold_touch_recorded)
    qed
    from Cons.IH [OF rest this]
    have "detonate_loop t a ds ?ch1 = Inr (fold (touch t) (loop_touches t a ds) ?ch1)" .
    then show ?thesis
      by (simp only: detonate_loop.simps np sum.case True if_True first lt fold_append o_apply)
  next
    case False
    have lt: "loop_touches t a (e # ds) = loop_touches t a ds"
      using False by (simp only: loop_touches_Cons if_False append_Nil)
    from Cons.prems(2) have "\<forall>p \<in> fst ` set (loop_touches t a ds).
        get_token t p = Inr BOMB \<longrightarrow> map_of ch p \<noteq> None" unfolding lt .
    from Cons.IH [OF rest this]
    show ?thesis
      by (simp only: detonate_loop.simps np sum.case False if_False lt)
  qed
qed

lemma direction_bits_all [simp]: "direction_bits [UP, DOWN, LEFT, RIGHT] = 15"
  by simp

lemma detonate_at_free:
  assumes wf: "wf_terrain t" and v: "is_valid_position t a" and nw: "get_token t a \<noteq> Inr WALL"
    and free: "\<forall>p \<in> fst ` set (loop_touches t a [UP, DOWN, LEFT, RIGHT]).
                 get_token t p = Inr BOMB \<longrightarrow> p = a \<or> map_of ch p \<noteq> None"
  shows "detonate_at t a ch = Inr (fold (touch t) (blast_touches t a) ch)"
proof -
  let ?ch1 = "touch t (a, 15) ch"
  have af: "add_flame t a [UP, DOWN, LEFT, RIGHT] ch = Inr ?ch1"
    using nw by (simp add: add_flame_valid [OF v] touch_def del: direction_bits.simps)
  have "\<forall>p \<in> fst ` set (loop_touches t a [UP, DOWN, LEFT, RIGHT]).
          get_token t p = Inr BOMB \<longrightarrow> map_of ?ch1 p \<noteq> None"
  proof (intro ballI impI)
    fix p assume "p \<in> fst ` set (loop_touches t a [UP, DOWN, LEFT, RIGHT])" "get_token t p = Inr BOMB"
    with free have "p = a \<or> map_of ch p \<noteq> None" by blast
    then show "map_of ?ch1 p \<noteq> None"
      using touch_self_recorded [of t a 15 ch] touch_recorded [of ch p t "(a, 15)"] by auto
  qed
  from loop_free [OF wf _ this] af show ?thesis
    by (simp add: detonate_at.simps blast_touches_def)
qed

subsection \<open>The entry of a cell after a sequence of markings\<close>

fun bits_at :: "(position \<times> nat) list \<Rightarrow> position \<Rightarrow> nat" where
  "bits_at [] p = 0"
| "bits_at (qb # ts) p = (if fst qb = p then snd qb OR bits_at ts p else bits_at ts p)"

lemma bits_at_notin: "p \<notin> fst ` set ts \<Longrightarrow> bits_at ts p = 0"
  by (induction ts) auto

lemma bits_at_append: "bits_at (ts @ us) p = bits_at ts p OR bits_at us p"
  by (induction ts) (simp_all add: or.assoc)

lemma bits_at_lt16: "\<forall>qb \<in> set ts. snd qb < 16 \<Longrightarrow> bits_at ts p < 16"
  by (induction ts) (simp_all add: or_lt16)

lemma glyph_0: "glyph 0 = EMPTY"
  by (simp add: glyph_def flame_tokens_def EMPTY_def)

lemma mask_at_touch:
  assumes "snd qb < 16"
  shows "mask_at (touch t qb ch) p =
           (if p = fst qb then (if get_token t p = Inr WALL then 0 else mask_at ch p OR snd qb)
            else mask_at ch p)"
proof (cases "p = fst qb")
  case True
  have lt: "mask_at ch p OR snd qb < 16" using assms by (intro or_lt16 mask_at_lt16)
  show ?thesis
  proof (cases "get_token t p = Inr WALL")
    case w: True
    have "mask_at (AList.update p (glyph 0) ch) p = 0" by (rule mask_at_update_same) simp
    with True w show ?thesis by (simp add: touch_def glyph_0)
  next
    case False
    with True mask_at_update_same [OF lt, of p ch] show ?thesis by (simp add: touch_def)
  qed
next
  case False
  then show ?thesis by (simp add: touch_def mask_at_update_other)
qed

lemma map_of_fold_touch:
  "\<forall>qb \<in> set ts. snd qb < 16 \<Longrightarrow>
   map_of (fold (touch t) ts ch) p =
     (if p \<in> fst ` set ts
      then Some (if get_token t p = Inr WALL then EMPTY else glyph (mask_at ch p OR bits_at ts p))
      else map_of ch p)"
proof (induction ts arbitrary: ch)
  case Nil
  show ?case by simp
next
  case (Cons qb ts)
  then have b: "snd qb < 16" and rest: "\<forall>qb \<in> set ts. snd qb < 16" by simp_all
  let ?ch1 = "touch t qb ch"
  have ih: "map_of (fold (touch t) ts ?ch1) p =
     (if p \<in> fst ` set ts
      then Some (if get_token t p = Inr WALL then EMPTY else glyph (mask_at ?ch1 p OR bits_at ts p))
      else map_of ?ch1 p)"
    by (rule Cons.IH [OF rest])
  have m1: "map_of ?ch1 p =
     (if p = fst qb
      then Some (if get_token t p = Inr WALL then EMPTY else glyph (mask_at ch p OR snd qb))
      else map_of ch p)"
    by (simp add: touch_def update_conv')
  show ?case
  proof (cases "p \<in> fst ` set ts")
    case True
    with ih mask_at_touch [OF b, of t ch p] show ?thesis by (auto simp: or.assoc)
  next
    case False
    with ih m1 bits_at_notin [OF False] show ?thesis by auto
  qed
qed

subsection \<open>A single blast on open ground\<close>

lemma ray_touches_step:
  "get_token t c \<noteq> Inr WALL \<Longrightarrow> is_valid_position t (ahead c d 1) \<Longrightarrow>
     ray_touches t c d (Suc n) = (c, step_bits d n) # ray_touches t (ahead c d 1) d n"
  by simp

lemma ray_touches_last:
  "get_token t c \<noteq> Inr WALL \<Longrightarrow> ray_touches t c d (Suc 0) = [(c, step_bits d 0)]"
  by simp

lemma ray_touches_wall:
  "get_token t c = Inr WALL \<Longrightarrow> ray_touches t c d (Suc n) = [(c, 0)]"
  by simp

lemma ray_touches_edge:
  "get_token t c \<noteq> Inr WALL \<Longrightarrow> \<not> is_valid_position t (ahead c d 1) \<Longrightarrow>
     ray_touches t c d (Suc n) = [(c, step_bits d n)]"
  by simp

lemma ahead_1_1: "ahead (ahead a d 1) d 1 = ahead a d 2"
  by (simp add: ahead_def algebra_simps)

lemma ahead_2_1: "ahead (ahead a d 2) d 1 = ahead a d 3"
  by (simp add: ahead_def algebra_simps)

lemma step_bits_simps:
  "step_bits d 0 = direction_bits [opposite d]"
  "step_bits d (Suc n) = direction_bits [d, opposite d]"
  by (simp_all add: step_bits_def)

lemma ray_touches_open3:
  assumes "d \<noteq> NONE"
    and "get_token t (ahead a d 1) \<noteq> Inr WALL" "get_token t (ahead a d 2) \<noteq> Inr WALL"
    and "get_token t (ahead a d 3) \<noteq> Inr WALL"
    and "is_valid_position t (ahead a d 2)" "is_valid_position t (ahead a d 3)"
  shows "ray_touches t (ahead a d 1) d BOMB_SIZE =
           [(ahead a d 1, direction_bits [d, opposite d]),
            (ahead a d 2, direction_bits [d, opposite d]),
            (ahead a d 3, direction_bits [opposite d])]"
proof -
  have v2: "is_valid_position t (ahead (ahead a d 1) d 1)" using assms(5) by (simp only: ahead_1_1)
  have v3: "is_valid_position t (ahead (ahead a d 2) d 1)" using assms(6) by (simp only: ahead_2_1)
  have "ray_touches t (ahead a d 1) d (Suc (Suc (Suc 0)))
          = (ahead a d 1, step_bits d (Suc (Suc 0))) # ray_touches t (ahead a d 2) d (Suc (Suc 0))"
    using ray_touches_step [OF assms(2) v2] by (simp only: ahead_1_1)
  also have "ray_touches t (ahead a d 2) d (Suc (Suc 0))
          = (ahead a d 2, step_bits d (Suc 0)) # ray_touches t (ahead a d 3) d (Suc 0)"
    using ray_touches_step [OF assms(3) v3] by (simp only: ahead_2_1)
  also have "ray_touches t (ahead a d 3) d (Suc 0) = [(ahead a d 3, step_bits d 0)]"
    by (rule ray_touches_last [OF assms(4)])
  finally show ?thesis by (simp only: BOMB_SIZE_Suc step_bits_simps)
qed

definition grid7 :: terrain where
  "grid7 = \<lparr>width = 7, height = 7, cells = (replicate 49 EMPTY)[24 := BOMB]\<rparr>"

text \<open>
  Claim C1 says that the outermost cell of each arm carries only the \<^emph>\<open>outward\<close>
  direction bit.  At the last step \<open>_propagate\<close> marks \<open>incoming.opposite()\<close>, where
  \<open>incoming\<close> is the direction of travel: the tip carries the bit of the direction that
  points back to the bomb.  On the empty 7 by 7 grid with a bomb at \<open>(3, 3)\<close>, the tip
  three steps to the right, \<open>(6, 3)\<close>, carries the \<open>LEFT\<close> bit and not the \<open>RIGHT\<close> bit.
\<close>

theorem detonate_tip_bit_counterexample:
  "\<exists>ch. detonate (Position 3 3) grid7 = Inr ch \<and> length ch = 13 \<and>
        map_of ch (Position 6 3) = map_of flame_tokens (direction_bits [LEFT]) \<and>
        map_of ch (Position 6 3) \<noteq> map_of flame_tokens (direction_bits [RIGHT])"
proof -
  have "detonate (Position 3 3) grid7 = Inr [(Position 3 3, Token [9532]), (Position 3 2, Token [9474]),
      (Position 3 1, Token [9474]), (Position 3 0, Token [9591]),
      (Position 3 4, Token [9474]), (Position 3 5, Token [9474]),
      (Position 3 6, Token [9589]), (Position 2 3, Token [9472]),
      (Position 1 3, Token [9472]), (Position 0 3, Token [9590]),
      (Position 4 3, Token [9472]), (Position 5 3, Token [9472]),
      (Position 6 3, Token [9588])]"
    by (simp add: eval_simps grid7_def)
  then show ?thesis by (simp add: flame_tokens_def)
qed

text \<open>
  Claim C1, amended.  For a bomb with at least three cells of room on every side, on a
  grid that is empty everywhere else, \<open>detonate\<close> returns a change-set of exactly 13
  cells: the bomb's cell carries the full four-direction mask; in each of the four
  directions the two intermediate cells carry the bit of the direction of travel and the
  bit of its opposite, and the outermost cell, three steps from the bomb, carries only
  the bit of the direction opposite to the direction of travel, the one pointing back
  to the bomb.
\<close>

theorem detonate_center_of_empty_grid:
  assumes "wf_terrain t"
    and "3 \<le> cx" and "cx + 3 < width t" and "3 \<le> cy" and "cy + 3 < height t"
    and "get_token t (Position cx cy) = Inr BOMB"
    and "\<forall>p. is_valid_position t p \<and> p \<noteq> Position cx cy \<longrightarrow> get_token t p = Inr EMPTY"
  shows "detonate (Position cx cy) t = Inr
    [(Position cx cy, glyph (direction_bits [UP, DOWN, LEFT, RIGHT])),
     (Position cx (cy - 1), glyph (direction_bits [UP, DOWN])),
     (Position cx (cy - 2), glyph (direction_bits [UP, DOWN])),
     (Position cx (cy - 3), glyph (direction_bits [DOWN])),
     (Position cx (cy + 1), glyph (direction_bits [DOWN, UP])),
     (Position cx (cy + 2), glyph (direction_bits [DOWN, UP])),
     (Position cx (cy + 3), glyph (direction_bits [UP])),
     (Position (cx - 1) cy, glyph (direction_bits [LEFT, RIGHT])),
     (Position (cx - 2) cy, glyph (direction_bits [LEFT, RIGHT])),
     (Position (cx - 3) cy, glyph (direction_bits [RIGHT])),
     (Position (cx + 1) cy, glyph (direction_bits [RIGHT, LEFT])),
     (Position (cx + 2) cy, glyph (direction_bits [RIGHT, LEFT])),
     (Position (cx + 3) cy, glyph (direction_bits [LEFT]))]"
proof -
  let ?a = "Position cx cy"
  have va: "is_valid_position t ?a" using assms(6) by (rule get_token_valid)
  have open_cell: "is_valid_position t (ahead ?a d k) \<and> get_token t (ahead ?a d k) = Inr EMPTY"
    if "d \<noteq> NONE" "k \<in> {1, 2, 3}" for d k
  proof -
    from that assms(2-5) have v: "is_valid_position t (ahead ?a d k)"
      by (cases d) (auto simp: valid_iff ahead_def)
    from that have "ahead ?a d k \<noteq> ?a" by (cases d) (auto simp: ahead_def)
    with v assms(7) show ?thesis by blast
  qed
  have ray: "ray_touches t (ahead ?a d 1) d BOMB_SIZE =
           [(ahead ?a d 1, direction_bits [d, opposite d]),
            (ahead ?a d 2, direction_bits [d, opposite d]),
            (ahead ?a d 3, direction_bits [opposite d])]" if "d \<noteq> NONE" for d
    using open_cell [OF that, of 1] open_cell [OF that, of 2] open_cell [OF that, of 3]
    by (intro ray_touches_open3 [OF that]) simp_all
  have valid1: "is_valid_position t (ahead ?a d 1)" if "d \<noteq> NONE" for d
    using open_cell [OF that, of 1] by simp
  have bt: "blast_touches t ?a =
    [(?a, 15),
     (Position cx (cy - 1), 12), (Position cx (cy - 2), 12), (Position cx (cy - 3), 8),
     (Position cx (cy + 1), 12), (Position cx (cy + 2), 12), (Position cx (cy + 3), 4),
     (Position (cx - 1) cy, 3), (Position (cx - 2) cy, 3), (Position (cx - 3) cy, 2),
     (Position (cx + 1) cy, 3), (Position (cx + 2) cy, 3), (Position (cx + 3) cy, 1)]"
  proof -
    have rs: "ray_touches t (ahead ?a UP 1) UP BOMB_SIZE =
                [(ahead ?a UP 1, 12), (ahead ?a UP 2, 12), (ahead ?a UP 3, 8)]"
      "ray_touches t (ahead ?a DOWN 1) DOWN BOMB_SIZE =
                [(ahead ?a DOWN 1, 12), (ahead ?a DOWN 2, 12), (ahead ?a DOWN 3, 4)]"
      "ray_touches t (ahead ?a LEFT 1) LEFT BOMB_SIZE =
                [(ahead ?a LEFT 1, 3), (ahead ?a LEFT 2, 3), (ahead ?a LEFT 3, 2)]"
      "ray_touches t (ahead ?a RIGHT 1) RIGHT BOMB_SIZE =
                [(ahead ?a RIGHT 1, 3), (ahead ?a RIGHT 2, 3), (ahead ?a RIGHT 3, 1)]"
      using ray [of UP] ray [of DOWN] ray [of LEFT] ray [of RIGHT] by simp_all
    have vs: "is_valid_position t (ahead ?a UP 1)" "is_valid_position t (ahead ?a DOWN 1)"
      "is_valid_position t (ahead ?a LEFT 1)" "is_valid_position t (ahead ?a RIGHT 1)"
      using valid1 [of UP] valid1 [of DOWN] valid1 [of LEFT] valid1 [of RIGHT] by simp_all
    have "blast_touches t ?a =
      [(?a, 15),
       (ahead ?a UP 1, 12), (ahead ?a UP 2, 12), (ahead ?a UP 3, 8),
       (ahead ?a DOWN 1, 12), (ahead ?a DOWN 2, 12), (ahead ?a DOWN 3, 4),
       (ahead ?a LEFT 1, 3), (ahead ?a LEFT 2, 3), (ahead ?a LEFT 3, 2),
       (ahead ?a RIGHT 1, 3), (ahead ?a RIGHT 2, 3), (ahead ?a RIGHT 3, 1)]"
      by (simp only: blast_touches_def loop_touches_Cons loop_touches_Nil vs if_True rs
            append.simps)
    then show ?thesis by (simp add: ahead_def)
  qed
  have nowall: "get_token t p \<noteq> Inr WALL" if "p \<in> fst ` set (blast_touches t ?a)" for p
  proof (cases "p = ?a")
    case True
    with assms(6) show ?thesis by simp
  next
    case False
    from that have "is_valid_position t p"
      unfolding bt using assms(2-5) va by (auto simp: valid_iff)
    with False assms(7) have "get_token t p = Inr EMPTY" by blast
    then show ?thesis by simp
  qed
  have free: "\<forall>p \<in> fst ` set (loop_touches t ?a [UP, DOWN, LEFT, RIGHT]).
                 get_token t p = Inr BOMB \<longrightarrow> p = ?a \<or> map_of [] p \<noteq> None"
  proof (intro ballI impI)
    fix p assume b: "get_token t p = Inr BOMB"
    then have "is_valid_position t p" by (rule get_token_valid)
    with assms(7) b show "p = ?a \<or> map_of [] p \<noteq> None" by auto
  qed
  have nw: "get_token t ?a \<noteq> Inr WALL" using assms(6) by simp
  have "detonate ?a t = Inr (fold (touch t) (blast_touches t ?a) [])"
    using assms(6) detonate_at_free [OF assms(1) va nw free] by (simp add: detonate_def)
  also have "fold (touch t) (blast_touches t ?a) [] =
    [(Position cx cy, glyph 15),
     (Position cx (cy - 1), glyph 12), (Position cx (cy - 2), glyph 12), (Position cx (cy - 3), glyph 8),
     (Position cx (cy + 1), glyph 12), (Position cx (cy + 2), glyph 12), (Position cx (cy + 3), glyph 4),
     (Position (cx - 1) cy, glyph 3), (Position (cx - 2) cy, glyph 3), (Position (cx - 3) cy, glyph 2),
     (Position (cx + 1) cy, glyph 3), (Position (cx + 2) cy, glyph 3), (Position (cx + 3) cy, glyph 1)]"
    using nowall unfolding bt by (simp add: touch_def mask_at_def)
  finally show ?thesis by simp
qed

theorem detonate_center_of_empty_grid_witness:
  "wf_terrain grid7 \<and> (3::int) \<le> 3 \<and> (3::int) + 3 < width grid7 \<and> (3::int) + 3 < height grid7 \<and>
   get_token grid7 (Position 3 3) = Inr BOMB \<and>
   get_token grid7 (Position 0 0) = Inr EMPTY \<and>
   (\<exists>ch. detonate (Position 3 3) grid7 = Inr ch \<and> length ch = 13 \<and>
        map_of ch (Position 3 3) = Some (Token [0x253C]) \<and>
        map_of ch (Position 3 2) = Some (Token [0x2502]) \<and>
        map_of ch (Position 3 0) = Some (Token [0x2577]) \<and>
        map_of ch (Position 6 3) = Some (Token [0x2574]))"
proof -
  have wf: "wf_terrain grid7" by (simp add: grid7_def wf_terrain_def)
  have b: "(3::int) \<le> 3" "(3::int) + 3 < width grid7" "(3::int) + 3 < height grid7"
    by (simp_all add: grid7_def)
  have bomb: "get_token grid7 (Position 3 3) = Inr BOMB"
    by (simp add: grid7_def get_token_def loc_to_index_def is_valid_position_def py_index_def)
  have e0: "get_token grid7 (Position 0 0) = Inr EMPTY"
    by (simp add: grid7_def get_token_def loc_to_index_def is_valid_position_def py_index_def)
  have others: "\<forall>p. is_valid_position grid7 p \<and> p \<noteq> Position 3 3 \<longrightarrow> get_token grid7 p = Inr EMPTY"
  proof (intro allI impI)
    fix p assume h: "is_valid_position grid7 p \<and> p \<noteq> Position 3 3"
    then have v: "is_valid_position grid7 p" and ne: "p \<noteq> Position 3 3" by simp_all
    from index_in_range [OF v]
    have r: "0 \<le> y p * 7 + x p" "y p * 7 + x p < 49" by (simp_all add: grid7_def)
    have "y p * 7 + x p \<noteq> 24"
    proof
      assume "y p * 7 + x p = 24"
      then have "y p * width grid7 + x p = y (Position 3 3) * width grid7 + x (Position 3 3)"
        by (simp add: grid7_def)
      moreover have "is_valid_position grid7 (Position 3 3)" by (simp add: grid7_def valid_iff)
      ultimately have "p = Position 3 3" using index_inj [OF v] by blast
      with ne show False by simp
    qed
    with r have "nat (y p * 7 + x p) \<noteq> 24" "nat (y p * 7 + x p) < 49" by simp_all
    then have "tok_at grid7 p = EMPTY" by (simp add: tok_at_def grid7_def)
    with get_token_wf [OF wf v] show "get_token grid7 p = Inr EMPTY" by simp
  qed
  from detonate_center_of_empty_grid [OF wf b(1) b(2) b(1) b(3) bomb others]
  show ?thesis using wf b bomb e0 by (simp add: glyph_def flame_tokens_def)
qed

subsection \<open>Which cells a propagation reaches\<close>

text \<open>
  A propagation that starts at \<open>c\<close> gets as far as the cell \<open>i\<close> steps on when no cell
  before it is a wall and every position up to it is inside the grid.
\<close>

definition reaches :: "terrain \<Rightarrow> position \<Rightarrow> direction \<Rightarrow> nat \<Rightarrow> bool" where
  "reaches t c d i \<longleftrightarrow>
     (\<forall>j<i. get_token t (ahead c d j) \<noteq> Inr WALL) \<and>
     (\<forall>j. 0 < j \<and> j \<le> i \<longrightarrow> is_valid_position t (ahead c d j))"

lemma reaches_0 [simp]: "reaches t c d 0"
  by (simp add: reaches_def)

lemma reaches_Suc:
  "reaches t c d (Suc i) \<longleftrightarrow>
     get_token t c \<noteq> Inr WALL \<and> is_valid_position t (ahead c d 1) \<and> reaches t (ahead c d 1) d i"
proof -
  have a: "(\<forall>j<Suc i. get_token t (ahead c d j) \<noteq> Inr WALL) \<longleftrightarrow>
        get_token t c \<noteq> Inr WALL \<and> (\<forall>j<i. get_token t (ahead (ahead c d 1) d j) \<noteq> Inr WALL)"
  proof -
    have "(\<forall>j<Suc i. get_token t (ahead c d j) \<noteq> Inr WALL) \<longleftrightarrow>
        get_token t (ahead c d 0) \<noteq> Inr WALL \<and> (\<forall>j<i. get_token t (ahead c d (Suc j)) \<noteq> Inr WALL)"
      by (rule All_less_Suc2)
    then show ?thesis by (simp add: ahead_ahead)
  qed
  have b: "(\<forall>j. 0 < j \<and> j \<le> Suc i \<longrightarrow> is_valid_position t (ahead c d j)) \<longleftrightarrow>
        is_valid_position t (ahead c d 1) \<and>
        (\<forall>j. 0 < j \<and> j \<le> i \<longrightarrow> is_valid_position t (ahead (ahead c d 1) d j))"
  proof
    assume h: "\<forall>j. 0 < j \<and> j \<le> Suc i \<longrightarrow> is_valid_position t (ahead c d j)"
    then have "is_valid_position t (ahead c d 1)" by simp
    moreover have "\<forall>j. 0 < j \<and> j \<le> i \<longrightarrow> is_valid_position t (ahead (ahead c d 1) d j)"
    proof (intro allI impI)
      fix j assume "0 < j \<and> j \<le> i"
      then have "0 < Suc j \<and> Suc j \<le> Suc i" by simp
      with h have "is_valid_position t (ahead c d (Suc j))" by blast
      then show "is_valid_position t (ahead (ahead c d 1) d j)" by (simp add: ahead_ahead)
    qed
    ultimately show "is_valid_position t (ahead c d 1) \<and>
        (\<forall>j. 0 < j \<and> j \<le> i \<longrightarrow> is_valid_position t (ahead (ahead c d 1) d j))" by blast
  next
    assume h: "is_valid_position t (ahead c d 1) \<and>
        (\<forall>j. 0 < j \<and> j \<le> i \<longrightarrow> is_valid_position t (ahead (ahead c d 1) d j))"
    show "\<forall>j. 0 < j \<and> j \<le> Suc i \<longrightarrow> is_valid_position t (ahead c d j)"
    proof (intro allI impI)
      fix j assume j: "0 < j \<and> j \<le> Suc i"
      then obtain j' where j': "j = Suc j'" by (cases j) auto
      show "is_valid_position t (ahead c d j)"
      proof (cases "j' = 0")
        case True
        with h j' show ?thesis by simp
      next
        case False
        with j j' h have "is_valid_position t (ahead (ahead c d 1) d j')" by simp
        then show ?thesis by (simp add: ahead_ahead j')
      qed
    qed
  qed
  show ?thesis unfolding reaches_def [of t c d "Suc i"] a b by (auto simp: reaches_def)
qed

definition ray_bits :: "terrain \<Rightarrow> position \<Rightarrow> direction \<Rightarrow> nat \<Rightarrow> nat" where
  "ray_bits t p d m = (if get_token t p = Inr WALL then 0 else step_bits d m)"

lemma ray_touches_iff:
  "(p, b) \<in> set (ray_touches t c d n) \<longleftrightarrow>
     (\<exists>i<n. p = ahead c d i \<and> reaches t c d i \<and> b = ray_bits t p d (n - Suc i))"
proof (induction n arbitrary: c)
  case 0
  show ?case by simp
next
  case (Suc n)
  show ?case
  proof (cases "get_token t c = Inr WALL")
    case True
    have "(\<exists>i<Suc n. p = ahead c d i \<and> reaches t c d i \<and> b = ray_bits t p d (Suc n - Suc i))
            \<longleftrightarrow> p = c \<and> b = 0"
    proof
      assume "\<exists>i<Suc n. p = ahead c d i \<and> reaches t c d i \<and> b = ray_bits t p d (Suc n - Suc i)"
      then obtain i where i: "i < Suc n" "p = ahead c d i" "reaches t c d i"
        "b = ray_bits t p d (Suc n - Suc i)" by blast
      have "i = 0"
      proof (rule ccontr)
        assume "i \<noteq> 0"
        then obtain i' where "i = Suc i'" by (cases i) auto
        with i(3) True show False by (simp add: reaches_Suc)
      qed
      with i True show "p = c \<and> b = 0" by (simp add: ray_bits_def)
    next
      assume "p = c \<and> b = 0"
      with True have "0 < Suc n \<and> p = ahead c d 0 \<and> reaches t c d 0 \<and> b = ray_bits t p d (Suc n - Suc 0)"
        by (simp add: ray_bits_def)
      then show "\<exists>i<Suc n. p = ahead c d i \<and> reaches t c d i \<and> b = ray_bits t p d (Suc n - Suc i)"
        by blast
    qed
    with True show ?thesis by simp
  next
    case nw: False
    let ?c1 = "ahead c d 1"
    let ?R = "\<exists>i<Suc n. p = ahead c d i \<and> reaches t c d i \<and> b = ray_bits t p d (Suc n - Suc i)"
    have split: "?R \<longleftrightarrow> (p = c \<and> b = step_bits d n) \<or>
       (is_valid_position t ?c1 \<and>
        (\<exists>i<n. p = ahead ?c1 d i \<and> reaches t ?c1 d i \<and> b = ray_bits t p d (n - Suc i)))"
    proof
      assume ?R
      then obtain i where i: "i < Suc n" "p = ahead c d i" "reaches t c d i"
        "b = ray_bits t p d (Suc n - Suc i)" by blast
      show "(p = c \<and> b = step_bits d n) \<or>
       (is_valid_position t ?c1 \<and>
        (\<exists>i<n. p = ahead ?c1 d i \<and> reaches t ?c1 d i \<and> b = ray_bits t p d (n - Suc i)))"
      proof (cases i)
        case 0
        with i nw show ?thesis by (simp add: ray_bits_def)
      next
        case (Suc i')
        with i have "i' < n" "p = ahead ?c1 d i'" "is_valid_position t ?c1" "reaches t ?c1 d i'"
          "b = ray_bits t p d (n - Suc i')"
          by (simp_all add: reaches_Suc ahead_ahead)
        then show ?thesis by blast
      qed
    next
      assume "(p = c \<and> b = step_bits d n) \<or>
       (is_valid_position t ?c1 \<and>
        (\<exists>i<n. p = ahead ?c1 d i \<and> reaches t ?c1 d i \<and> b = ray_bits t p d (n - Suc i)))"
      then show ?R
      proof
        assume "p = c \<and> b = step_bits d n"
        with nw have "0 < Suc n \<and> p = ahead c d 0 \<and> reaches t c d 0 \<and> b = ray_bits t p d (Suc n - Suc 0)"
          by (simp add: ray_bits_def)
        then show ?R by blast
      next
        assume "is_valid_position t ?c1 \<and>
          (\<exists>i<n. p = ahead ?c1 d i \<and> reaches t ?c1 d i \<and> b = ray_bits t p d (n - Suc i))"
        then obtain i where v: "is_valid_position t ?c1" and i: "i < n" "p = ahead ?c1 d i"
          "reaches t ?c1 d i" "b = ray_bits t p d (n - Suc i)" by blast
        with nw have "Suc i < Suc n \<and> p = ahead c d (Suc i) \<and> reaches t c d (Suc i) \<and>
            b = ray_bits t p d (Suc n - Suc (Suc i))"
          by (simp add: reaches_Suc ahead_ahead)
        then show ?R by blast
      qed
    qed
    show ?thesis
    proof (cases "is_valid_position t ?c1")
      case True
      with nw Suc.IH [of ?c1] split show ?thesis by auto
    next
      case False
      with nw split show ?thesis by auto
    qed
  qed
qed

subsection \<open>The markings of one blast\<close>

lemma loop_touches_iff:
  "(p, b) \<in> set (loop_touches t a ds) \<longleftrightarrow>
     (\<exists>e \<in> set ds. is_valid_position t (ahead a e 1) \<and>
        (\<exists>i<BOMB_SIZE. p = ahead a e (Suc i) \<and> reaches t (ahead a e 1) e i \<and>
                        b = ray_bits t p e (BOMB_SIZE - Suc i)))"
proof -
  have "(p, b) \<in> set (loop_touches t a ds) \<longleftrightarrow>
     (\<exists>e \<in> set ds. is_valid_position t (ahead a e 1) \<and>
         (p, b) \<in> set (ray_touches t (ahead a e 1) e BOMB_SIZE))"
    by (auto simp: loop_touches_def split: if_splits)
  then show ?thesis by (simp add: ray_touches_iff ahead_ahead)
qed

lemma blast_touches_iff:
  "(p, b) \<in> set (blast_touches t a) \<longleftrightarrow>
     (p = a \<and> b = 15) \<or> (p, b) \<in> set (loop_touches t a [UP, DOWN, LEFT, RIGHT])"
  by (auto simp: blast_touches_def)

lemma loop_touches_unique:
  assumes "NONE \<notin> set ds"
    and "(p, b) \<in> set (loop_touches t a ds)" and "(p, b') \<in> set (loop_touches t a ds)"
  shows "b = b'"
proof -
  from assms(2) obtain e i where e: "e \<in> set ds" "p = ahead a e (Suc i)"
    "b = ray_bits t p e (BOMB_SIZE - Suc i)" by (auto simp: loop_touches_iff)
  from assms(3) obtain e' i' where e': "e' \<in> set ds" "p = ahead a e' (Suc i')"
    "b' = ray_bits t p e' (BOMB_SIZE - Suc i')" by (auto simp: loop_touches_iff)
  from e(1) e'(1) assms(1) have "e \<noteq> NONE" "e' \<noteq> NONE" by auto
  with e(2) e'(2) ahead_cross [of e e' "Suc i" a "Suc i'"] have "e = e' \<and> i = i'" by simp
  with e(3) e'(3) show ?thesis by simp
qed

lemma loop_touches_not_center:
  assumes "NONE \<notin> set ds" and "(p, b) \<in> set (loop_touches t a ds)"
  shows "p \<noteq> a"
proof -
  from assms(2) obtain e i where e: "e \<in> set ds" "p = ahead a e (Suc i)"
    by (auto simp: loop_touches_iff)
  with assms(1) have "e \<noteq> NONE" by auto
  with ahead_inj [of e a "Suc i" 0] e(2) show ?thesis by auto
qed

lemma blast_touches_unique:
  assumes "(p, b) \<in> set (blast_touches t a)" and "(p, b') \<in> set (blast_touches t a)"
  shows "b = b'"
proof -
  have n: "NONE \<notin> set [UP, DOWN, LEFT, RIGHT]" by simp
  from assms loop_touches_not_center [OF n] loop_touches_unique [OF n]
  show ?thesis unfolding blast_touches_iff by blast
qed

lemma bits_at_unique:
  "(p, b0) \<in> set ts \<Longrightarrow> \<forall>b. (p, b) \<in> set ts \<longrightarrow> b = b0 \<Longrightarrow> bits_at ts p = b0"
proof (induction ts)
  case Nil
  then show ?case by simp
next
  case (Cons qb ts)
  show ?case
  proof (cases "p \<in> fst ` set ts")
    case True
    then obtain b where b: "(p, b) \<in> set ts" by auto
    with Cons.prems(2) have "b = b0" by simp
    with b have in_ts: "(p, b0) \<in> set ts" by simp
    from Cons.prems(2) have "\<forall>b. (p, b) \<in> set ts \<longrightarrow> b = b0" by simp
    from Cons.IH [OF in_ts this] have ih: "bits_at ts p = b0" .
    show ?thesis
    proof (cases "fst qb = p")
      case True
      then have "(p, snd qb) \<in> set (qb # ts)" by (cases qb) simp
      with Cons.prems(2) have "snd qb = b0" by blast
      with True ih show ?thesis by simp
    next
      case False
      with ih show ?thesis by simp
    qed
  next
    case False
    with Cons.prems(1) have "qb = (p, b0)" by force
    with bits_at_notin [OF False] show ?thesis by simp
  qed
qed

lemma step_bits_lt16: "step_bits d n < 16"
  unfolding step_bits_def by (rule direction_bits_lt16)

lemma ray_bits_lt16: "ray_bits t p d n < 16"
  by (simp add: ray_bits_def step_bits_lt16)

lemma blast_touches_lt16: "\<forall>qb \<in> set (blast_touches t a). snd qb < 16"
proof
  fix qb assume "qb \<in> set (blast_touches t a)"
  then have "(fst qb, snd qb) \<in> set (blast_touches t a)" by simp
  then show "snd qb < 16"
    unfolding blast_touches_iff loop_touches_iff by (auto simp: ray_bits_lt16)
qed

text \<open>The change-set of one blast on a grid where it sets off no other bomb.\<close>

lemma lone_blast:
  assumes wf: "wf_terrain t" and bomb: "get_token t a = Inr BOMB"
    and only: "\<forall>p. get_token t p = Inr BOMB \<longrightarrow> p = a"
  shows "detonate a t = Inr (fold (touch t) (blast_touches t a) [])"
proof -
  have v: "is_valid_position t a" using bomb by (rule get_token_valid)
  have nw: "get_token t a \<noteq> Inr WALL" using bomb by simp
  have "\<forall>p \<in> fst ` set (loop_touches t a [UP, DOWN, LEFT, RIGHT]).
                 get_token t p = Inr BOMB \<longrightarrow> p = a \<or> map_of [] p \<noteq> None"
    using only by blast
  from detonate_at_free [OF wf v nw this] bomb show ?thesis by (simp add: detonate_def)
qed

lemma blast_entry:
  assumes "(p, b) \<in> set (blast_touches t a)"
  shows "map_of (fold (touch t) (blast_touches t a) []) p
           = Some (if get_token t p = Inr WALL then EMPTY else glyph b)"
proof -
  from assms have k: "p \<in> fst ` set (blast_touches t a)" by force
  have "bits_at (blast_touches t a) p = b"
  proof (rule bits_at_unique [OF assms], intro allI impI)
    fix b' assume "(p, b') \<in> set (blast_touches t a)"
    then show "b' = b" using assms by (rule blast_touches_unique)
  qed
  with k map_of_fold_touch [OF blast_touches_lt16 [of t a], where t = t and ch = "[]" and p = p] show ?thesis
    by (simp add: mask_at_def)
qed

lemma blast_no_entry:
  assumes "\<forall>b. (p, b) \<notin> set (blast_touches t a)"
  shows "map_of (fold (touch t) (blast_touches t a) []) p = None"
proof -
  from assms have "p \<notin> fst ` set (blast_touches t a)" by force
  with map_of_fold_touch [OF blast_touches_lt16 [of t a], where t = t and ch = "[]" and p = p] show ?thesis by simp
qed

lemma valid_between:
  assumes "is_valid_position t a" "is_valid_position t (ahead a d k)" "j \<le> k"
  shows "is_valid_position t (ahead a d j)"
proof -
  from assms(3) have "int j \<le> int k" by simp
  with assms(1,2) show ?thesis
    by (cases d) (auto simp: valid_iff ahead_def)
qed

lemma update_single:
  assumes wf: "wf_terrain t" and v: "is_valid_position t w" and u: "update t [(w, tok)] = Inr t0"
  shows "wf_terrain t0" and "width t0 = width t" and "height t0 = height t"
    and "get_token t0 w = Inr tok" and "q \<noteq> w \<Longrightarrow> get_token t0 q = get_token t q"
proof -
  let ?t1 = "t\<lparr>cells := (cells t)[nat (y w * width t + x w) := tok]\<rparr>"
  have "update t [(w, tok)] = Inr ?t1" by (simp only: update_step [OF wf v] update.simps(1))
  with u have t0: "t0 = ?t1" by simp
  show wf0: "wf_terrain t0" using wf by (simp add: t0 wf_terrain_def)
  show w0: "width t0 = width t" and h0: "height t0 = height t" by (simp_all add: t0)
  have v0: "is_valid_position t0 p = is_valid_position t p" for p
    by (rule valid_dims [OF w0 h0])
  have tk: "tok_at t0 p = (if p = w then tok else tok_at t p)" if "is_valid_position t p" for p
    unfolding t0 by (rule tok_at_set_cell [OF wf v that])
  show "get_token t0 w = Inr tok"
    using get_token_wf [OF wf0, of w] v0 [of w] v tk [OF v] by simp
  show "get_token t0 q = get_token t q" if "q \<noteq> w"
  proof (cases "is_valid_position t q")
    case True
    with get_token_wf [OF wf0, of q] get_token_wf [OF wf True] v0 [of q] tk [OF True] that
    show ?thesis by simp
  next
    case False
    with v0 [of q] show ?thesis by (simp add: get_token_invalid)
  qed
qed

subsection \<open>Walls\<close>

definition walls_cleared :: "terrain \<Rightarrow> changes \<Rightarrow> bool" where
  "walls_cleared t ch \<longleftrightarrow>
     (\<forall>p. get_token t p = Inr WALL \<longrightarrow> map_of ch p = None \<or> map_of ch p = Some EMPTY)"

lemma stable_walls_cleared: "stable t (walls_cleared t)"
  unfolding stable_def walls_cleared_def by (auto simp: update_conv')

lemma stable_True: "stable t (\<lambda>ch. True)"
  by (simp add: stable_def)

lemma propagate_returns:
  assumes "wf_terrain t" "is_valid_position t c" "d \<noteq> NONE"
  shows "\<exists>r. propagate t c d n ch = Inr r"
proof -
  from engine_stable(1) [OF assms(1) stable_True assms(2,3) TrueI]
  obtain r where "propagate t c d n ch = Inr r" by blast
  then show ?thesis by blast
qed

lemma detonate_loop_returns:
  assumes "wf_terrain t" "get_token t c = Inr BOMB" "NONE \<notin> set ds"
  shows "\<exists>r. detonate_loop t c ds ch = Inr r"
proof -
  from engine_stable(3) [OF assms(1) stable_True assms(2,3) TrueI]
  obtain r where "detonate_loop t c ds ch = Inr r" by blast
  then show ?thesis by blast
qed

lemma detonate_loop_clears_wall:
  assumes wf: "wf_terrain t" and bomb: "get_token t c = Inr BOMB"
    and v1: "is_valid_position t (ahead c d 1)"
    and ray: "\<And>ch'. \<exists>r. propagate t (ahead c d 1) d BOMB_SIZE ch' = Inr r \<and> map_of r w \<noteq> None"
  shows "NONE \<notin> set ds \<Longrightarrow> d \<in> set ds \<Longrightarrow>
         \<exists>r. detonate_loop t c ds ch = Inr r \<and> map_of r w \<noteq> None"
proof (induction ds arbitrary: ch)
  case Nil
  then show ?case by simp
next
  case (Cons e ds)
  then have card: "e \<noteq> NONE" and rest: "NONE \<notin> set ds" by auto
  have np: "get_new_position_from c e = Inr (ahead c e 1)"
    by (rule get_new_position_from_ahead [OF card])
  show ?case
  proof (cases "e = d")
    case True
    from ray [of ch] obtain r1 where r1: "propagate t (ahead c d 1) d BOMB_SIZE ch = Inr r1"
      and w1: "map_of r1 w \<noteq> None" by blast
    from detonate_loop_returns [OF wf bomb rest] obtain r where
      r: "detonate_loop t c ds r1 = Inr r" by blast
    from detonate_loop_grows [OF r] w1 have "map_of r w \<noteq> None" by (auto simp: dom_def)
    moreover have "detonate_loop t c (e # ds) ch = Inr r"
    proof -
      from True v1 have v1e: "is_valid_position t (ahead c e 1)" by simp
      from True r1 have r1e: "propagate t (ahead c e 1) e BOMB_SIZE ch = Inr r1" by simp
      show ?thesis by (simp only: detonate_loop.simps np sum.case v1e if_True r1e r)
    qed
    ultimately show ?thesis by blast
  next
    case False
    with Cons.prems(2) have d: "d \<in> set ds" by simp
    have "\<exists>r1. (if is_valid_position t (ahead c e 1) then propagate t (ahead c e 1) e BOMB_SIZE ch
                  else Inr ch) = Inr r1"
    proof (cases "is_valid_position t (ahead c e 1)")
      case True
      with propagate_returns [OF wf True card] show ?thesis by simp
    next
      case False
      then show ?thesis by simp
    qed
    then obtain r1 where r1: "(if is_valid_position t (ahead c e 1)
        then propagate t (ahead c e 1) e BOMB_SIZE ch else Inr ch) = Inr r1" by blast
    from Cons.IH [OF rest d, of r1] obtain r where
      r: "detonate_loop t c ds r1 = Inr r" "map_of r w \<noteq> None" by blast
    have "detonate_loop t c (e # ds) ch = Inr r"
      using r1 r(1) by (simp only: detonate_loop.simps np sum.case)
    with r(2) show ?thesis by blast
  qed
qed

lemma cardinal_in_list: "d \<noteq> NONE \<Longrightarrow> d \<in> set [UP, DOWN, LEFT, RIGHT]"
  by (cases d) simp_all

lemma detonate_at_clears_wall:
  assumes wf: "wf_terrain t" and bomb: "get_token t c = Inr BOMB" and card: "d \<noteq> NONE"
    and v1: "is_valid_position t (ahead c d 1)"
    and ray: "\<And>ch'. \<exists>r. propagate t (ahead c d 1) d BOMB_SIZE ch' = Inr r \<and> map_of r w \<noteq> None"
  shows "\<exists>r. detonate_at t c ch = Inr r \<and> map_of r w \<noteq> None"
proof -
  have v: "is_valid_position t c" using bomb by (rule get_token_valid)
  have "\<exists>ch1. add_flame t c [UP, DOWN, LEFT, RIGHT] ch = Inr ch1"
    by (simp add: add_flame_valid [OF v] del: direction_bits.simps)
  then obtain ch1 where af: "add_flame t c [UP, DOWN, LEFT, RIGHT] ch = Inr ch1" by blast
  have n: "NONE \<notin> set [UP, DOWN, LEFT, RIGHT]" by simp
  from detonate_loop_clears_wall [OF wf bomb v1 ray n cardinal_in_list [OF card], of ch1]
  show ?thesis using af by (simp only: detonate_at.simps sum.case)
qed

lemma propagate_clears_wall:
  assumes wf: "wf_terrain t" and card: "d \<noteq> NONE"
  shows "is_valid_position t c \<Longrightarrow> m < n \<Longrightarrow> n \<le> BOMB_SIZE \<Longrightarrow> reaches t c d m \<Longrightarrow>
         get_token t (ahead c d m) = Inr WALL \<Longrightarrow>
         \<exists>r. propagate t c d n ch = Inr r \<and> map_of r (ahead c d m) \<noteq> None"
proof (induction m arbitrary: c n ch)
  case 0
  then obtain n' where n: "n = Suc n'" by (cases n) auto
  from 0 have w: "get_token t c = Inr WALL" by simp
  show ?case by (simp add: n propagate_wall [OF w] update_conv')
next
  case (Suc m)
  then obtain n' where n: "n = Suc n'" by (cases n) auto
  let ?c1 = "ahead c d 1"
  let ?w = "ahead c d (Suc m)"
  from Suc.prems(4) have nw: "get_token t c \<noteq> Inr WALL" and v1: "is_valid_position t ?c1"
    and r1: "reaches t ?c1 d m" by (simp_all add: reaches_Suc)
  have w1: "get_token t (ahead ?c1 d m) = Inr WALL" using Suc.prems(5) by (simp add: ahead_ahead)
  have ww: "ahead ?c1 d m = ?w" by (simp add: ahead_ahead)
  from Suc.prems(2,3) n have mn: "m < n'" and n3: "n' \<le> BOMB_SIZE" and m3: "m < BOMB_SIZE" by simp_all
  have tok: "get_token t c = Inr (tok_at t c)" by (rule get_token_wf [OF wf Suc.prems(1)])
  with nw have nw': "tok_at t c \<noteq> WALL" by simp
  show ?case
  proof (cases "tok_at t c = BOMB \<and> map_of ch c = None")
    case True
    with tok have bomb: "get_token t c = Inr BOMB" by simp
    have ray: "\<exists>r. propagate t ?c1 d BOMB_SIZE ch' = Inr r \<and> map_of r ?w \<noteq> None" for ch'
      using Suc.IH [OF v1 m3 order_refl r1 w1, of ch'] by (simp only: ww)
    from detonate_at_clears_wall [OF wf bomb card v1 ray, of ch] True bomb
    show ?thesis by (simp add: n propagate_chain)
  next
    case nb: False
    let ?ds = "if n' = 0 then [opposite d] else [d, opposite d]"
    obtain ch1 where af: "add_flame t c ?ds ch = Inr ch1"
      using add_flame_valid [OF Suc.prems(1) step_bits_cardinal [OF card], of n' ch] by blast
    from Suc.IH [OF v1 mn n3 r1 w1, of ch1] obtain r where
      r: "propagate t ?c1 d n' ch1 = Inr r" "map_of r ?w \<noteq> None" by (auto simp only: ww)
    have "propagate t c d n ch = Inr r"
      using af v1 r(1)
      by (simp add: n propagate_open [OF tok nw' nb] get_new_position_from_ahead [OF card])
    with r(2) show ?thesis by blast
  qed
qed

lemma reaches_between:
  assumes va: "is_valid_position t a" and vw: "is_valid_position t (ahead a d (Suc m))"
    and open_cells: "\<forall>j. 0 < j \<and> j < Suc m \<longrightarrow> get_token t (ahead a d j) \<noteq> Inr WALL"
  shows "reaches t (ahead a d 1) d m"
  unfolding reaches_def
proof (intro conjI allI impI)
  fix j assume "j < m"
  then have "0 < Suc j \<and> Suc j < Suc m" by simp
  with open_cells have "get_token t (ahead a d (Suc j)) \<noteq> Inr WALL" by blast
  then show "get_token t (ahead (ahead a d 1) d j) \<noteq> Inr WALL" by (simp add: ahead_ahead)
next
  fix j assume "0 < j \<and> j \<le> m"
  then have "Suc j \<le> Suc m" by simp
  from valid_between [OF va vw this]
  show "is_valid_position t (ahead (ahead a d 1) d j)" by (simp add: ahead_ahead)
qed

lemma detonate_clears_wall:
  assumes wf: "wf_terrain t" and bomb: "get_token t a = Inr BOMB" and card: "d \<noteq> NONE"
    and m: "m < BOMB_SIZE" and wall: "get_token t (ahead a d (Suc m)) = Inr WALL"
    and open_cells: "\<forall>j. 0 < j \<and> j < Suc m \<longrightarrow> get_token t (ahead a d j) \<noteq> Inr WALL"
  shows "\<exists>ch. detonate a t = Inr ch \<and> map_of ch (ahead a d (Suc m)) = Some EMPTY"
proof -
  let ?w = "ahead a d (Suc m)"
  have va: "is_valid_position t a" using bomb by (rule get_token_valid)
  have vw: "is_valid_position t ?w" using wall by (rule get_token_valid)
  have v1: "is_valid_position t (ahead a d 1)" by (rule valid_between [OF va vw]) simp
  have r: "reaches t (ahead a d 1) d m" by (rule reaches_between [OF va vw open_cells])
  have ww: "ahead (ahead a d 1) d m = ?w" by (simp add: ahead_ahead)
  have ray: "\<exists>r. propagate t (ahead a d 1) d BOMB_SIZE ch' = Inr r \<and> map_of r ?w \<noteq> None" for ch'
    using propagate_clears_wall [OF wf card v1 m order_refl r, of ch'] wall by (simp only: ww)
  from detonate_at_clears_wall [OF wf bomb card v1 ray, of "[]"] obtain ch where
    ch: "detonate_at t a [] = Inr ch" "map_of ch ?w \<noteq> None" by blast
  have "walls_cleared t []" by (simp add: walls_cleared_def)
  from engine_stable(2) [OF wf stable_walls_cleared bomb this] ch(1)
  have "walls_cleared t ch" by simp
  with wall have "map_of ch ?w = None \<or> map_of ch ?w = Some EMPTY"
    by (simp add: walls_cleared_def)
  with ch(2) have "map_of ch ?w = Some EMPTY" by auto
  with ch(1) bomb show ?thesis by (simp add: detonate_def)
qed

lemma reaches_cong:
  assumes "width t0 = width t" "height t0 = height t"
    and "\<forall>j<i. get_token t0 (ahead c e j) = get_token t (ahead c e j)"
  shows "reaches t0 c e i = reaches t c e i"
  using assms(3) by (simp add: reaches_def valid_dims [OF assms(1,2)])

definition chain3 :: terrain where
  "chain3 = \<lparr>width = 3, height = 2, cells = [BOMB, WALL, EMPTY, BOMB, EMPTY, BOMB]\<rparr>"

text \<open>
  Claim C3 says that the change-set holds no changed cell beyond the wall in the blocked
  direction, on every grid.  A chain reaction can reach such a cell from the side.  On the
  3 by 2 grid with rows \<open>bomb, wall, empty\<close> and \<open>bomb, empty, bomb\<close>, detonating the bomb at
  \<open>(0, 0)\<close> clears the wall at \<open>(1, 0)\<close> to its right; the bombs at \<open>(0, 1)\<close> and \<open>(2, 1)\<close> go
  off in the chain, and the last one puts a flame on \<open>(2, 0)\<close>, the cell beyond the wall.
\<close>

theorem wall_beyond_changed_counterexample:
  "get_token chain3 (Position 0 0) = Inr BOMB \<and>
   ahead (Position 0 0) RIGHT 1 = Position 1 0 \<and> ahead (Position 0 0) RIGHT 2 = Position 2 0 \<and>
   get_token chain3 (Position 1 0) = Inr WALL \<and>
   (\<exists>ch. detonate (Position 0 0) chain3 = Inr ch \<and>
         map_of ch (Position 1 0) = Some EMPTY \<and>
         map_of ch (Position 2 0) = Some (Token [0x2502]))"
  by (simp add: chain3_def eval_simps ahead_def)

definition walled4 :: terrain where
  "walled4 = \<lparr>width = 4, height = 1, cells = [BOMB, EMPTY, WALL, EMPTY]\<rparr>"

text \<open>
  Claim C3, amended.  On every grid, when the propagation of a bomb in some direction
  reaches a wall within the 3-cell radius (the cells between the bomb and the wall are no
  walls), the returned change-set maps that wall cell to the empty marker, which is no
  flame marker.  When the grid holds no other bomb, so that no chain reaction takes
  place, the change-set moreover has no entry beyond the wall in that direction, and
  everywhere else (in the other three directions and before the wall) it equals the
  change-set returned on the grid from which the wall has been removed.
\<close>

theorem wall_absorbs_blast:
  assumes "wf_terrain t" and "get_token t a = Inr BOMB" and "d \<noteq> NONE" and "k \<in> {1, 2, 3}"
    and "get_token t (ahead a d k) = Inr WALL"
    and "\<forall>j. 0 < j \<and> j < k \<longrightarrow> get_token t (ahead a d j) \<noteq> Inr WALL"
    and "update t [(ahead a d k, EMPTY)] = Inr t0"
  shows "\<exists>ch. detonate a t = Inr ch \<and> map_of ch (ahead a d k) = Some EMPTY \<and> EMPTY \<notin> set FLAMES \<and>
           ((\<forall>p. get_token t p = Inr BOMB \<longrightarrow> p = a) \<longrightarrow>
              (\<forall>j. k < j \<longrightarrow> map_of ch (ahead a d j) = None) \<and>
              (\<exists>ch0. detonate a t0 = Inr ch0 \<and>
                 (\<forall>p. (\<forall>j. k \<le> j \<longrightarrow> p \<noteq> ahead a d j) \<longrightarrow> map_of ch p = map_of ch0 p)))"
proof -
  let ?w = "ahead a d k"
  from assms(4) obtain m where k: "k = Suc m" and m: "m < BOMB_SIZE"
    by (cases k) (auto simp: BOMB_SIZE_def)
  from detonate_clears_wall [OF assms(1,2,3) m] assms(5,6) obtain ch where
    ch: "detonate a t = Inr ch" and cw: "map_of ch ?w = Some EMPTY" unfolding k by blast
  have nf: "EMPTY \<notin> set FLAMES" by (simp add: FLAMES_def EMPTY_def)
  have va: "is_valid_position t a" using assms(2) by (rule get_token_valid)
  have vw: "is_valid_position t ?w" using assms(5) by (rule get_token_valid)
  have r: "reaches t (ahead a d 1) d m"
    using reaches_between [OF va] vw assms(6) unfolding k by blast
  have n4: "NONE \<notin> set [UP, DOWN, LEFT, RIGHT]" by simp
  have lone: "(\<forall>j. k < j \<longrightarrow> map_of ch (ahead a d j) = None) \<and>
              (\<exists>ch0. detonate a t0 = Inr ch0 \<and>
                 (\<forall>p. (\<forall>j. k \<le> j \<longrightarrow> p \<noteq> ahead a d j) \<longrightarrow> map_of ch p = map_of ch0 p))"
    if only: "\<forall>p. get_token t p = Inr BOMB \<longrightarrow> p = a"
  proof -
    from lone_blast [OF assms(1,2) only] ch
    have ch_eq: "ch = fold (touch t) (blast_touches t a) []" by simp
    have beyond: "map_of ch (ahead a d j) = None" if j: "k < j" for j
      unfolding ch_eq
    proof (rule blast_no_entry, intro allI notI)
      fix b assume "(ahead a d j, b) \<in> set (blast_touches t a)"
      then have "ahead a d j = a \<or> (ahead a d j, b) \<in> set (loop_touches t a [UP, DOWN, LEFT, RIGHT])"
        by (auto simp: blast_touches_iff)
      moreover from j ahead_inj [OF assms(3), of a j 0] have "ahead a d j \<noteq> a" by simp
      ultimately have "(ahead a d j, b) \<in> set (loop_touches t a [UP, DOWN, LEFT, RIGHT])" by simp
      then obtain e i where e: "e \<in> set [UP, DOWN, LEFT, RIGHT]" and i: "ahead a d j = ahead a e (Suc i)"
        and re: "reaches t (ahead a e 1) e i" unfolding loop_touches_iff by blast
      from e have "e \<noteq> NONE" by auto
      with i j ahead_cross [OF assms(3) this, of j a "Suc i"] have de: "d = e" "j = Suc i" by simp_all
      from j de k have "m < i" by simp
      with re de have "get_token t (ahead (ahead a d 1) d m) \<noteq> Inr WALL" by (simp add: reaches_def)
      with assms(5) show False by (simp add: ahead_ahead k)
    qed
    have aw: "a \<noteq> ?w" using assms(2,5) by auto
    note u = update_single [OF assms(1) vw assms(7)]
    have bomb0: "get_token t0 a = Inr BOMB" using u(5) [OF aw] assms(2) by simp
    have only0: "\<forall>p. get_token t0 p = Inr BOMB \<longrightarrow> p = a"
    proof (intro allI impI)
      fix p assume b: "get_token t0 p = Inr BOMB"
      have "p \<noteq> ?w" using b u(4) by auto
      with u(5) b only show "p = a" by simp
    qed
    have ch0: "detonate a t0 = Inr (fold (touch t0) (blast_touches t0 a) [])"
      by (rule lone_blast [OF u(1) bomb0 only0])
    have same: "map_of ch p = map_of (fold (touch t0) (blast_touches t0 a) []) p"
      if off: "\<forall>j. k \<le> j \<longrightarrow> p \<noteq> ahead a d j" for p
    proof -
      from off have pw: "p \<noteq> ?w" by blast
      have tokp: "get_token t0 p = get_token t p" by (rule u(5) [OF pw])
      have loop_eq: "(p, b) \<in> set (loop_touches t0 a [UP, DOWN, LEFT, RIGHT])
                       \<longleftrightarrow> (p, b) \<in> set (loop_touches t a [UP, DOWN, LEFT, RIGHT])" for b
      proof -
        have re: "reaches t0 (ahead a e 1) e i = reaches t (ahead a e 1) e i"
          if e: "e \<noteq> NONE" and p: "p = ahead a e (Suc i)" for e i
        proof (rule reaches_cong [OF u(2,3)], intro allI impI)
          fix j assume j: "j < i"
          have "ahead (ahead a e 1) e j \<noteq> ?w"
          proof
            assume "ahead (ahead a e 1) e j = ?w"
            then have "ahead a e (Suc j) = ahead a d k" by (simp add: ahead_ahead)
            with ahead_cross [OF e assms(3), of "Suc j" a k] have "e = d" "Suc j = k" by simp_all
            with j p off show False by auto
          qed
          then show "get_token t0 (ahead (ahead a e 1) e j) = get_token t (ahead (ahead a e 1) e j)"
            by (rule u(5))
        qed
        have rb: "ray_bits t0 p e n = ray_bits t p e n" for e n
          by (simp add: ray_bits_def tokp)
        have v1: "is_valid_position t0 (ahead a e 1) = is_valid_position t (ahead a e 1)" for e
          by (rule valid_dims [OF u(2,3)])
        show ?thesis
        proof
          assume "(p, b) \<in> set (loop_touches t0 a [UP, DOWN, LEFT, RIGHT])"
          then obtain e i where e: "e \<in> set [UP, DOWN, LEFT, RIGHT]"
            and v: "is_valid_position t0 (ahead a e 1)" and i: "i < BOMB_SIZE"
            and p: "p = ahead a e (Suc i)" and r0: "reaches t0 (ahead a e 1) e i"
            and b: "b = ray_bits t0 p e (BOMB_SIZE - Suc i)"
            unfolding loop_touches_iff by blast
          from e have ne: "e \<noteq> NONE" by auto
          from v have v': "is_valid_position t (ahead a e 1)" by (simp only: v1)
          from r0 have r': "reaches t (ahead a e 1) e i" by (simp only: re [OF ne p])
          from b have b': "b = ray_bits t p e (BOMB_SIZE - Suc i)" by (simp only: rb)
          from e v' i p r' b' show "(p, b) \<in> set (loop_touches t a [UP, DOWN, LEFT, RIGHT])"
            unfolding loop_touches_iff by blast
        next
          assume "(p, b) \<in> set (loop_touches t a [UP, DOWN, LEFT, RIGHT])"
          then obtain e i where e: "e \<in> set [UP, DOWN, LEFT, RIGHT]"
            and v: "is_valid_position t (ahead a e 1)" and i: "i < BOMB_SIZE"
            and p: "p = ahead a e (Suc i)" and r0: "reaches t (ahead a e 1) e i"
            and b: "b = ray_bits t p e (BOMB_SIZE - Suc i)"
            unfolding loop_touches_iff by blast
          from e have ne: "e \<noteq> NONE" by auto
          from v have v': "is_valid_position t0 (ahead a e 1)" by (simp only: v1)
          from r0 have r': "reaches t0 (ahead a e 1) e i" by (simp only: re [OF ne p])
          from b have b': "b = ray_bits t0 p e (BOMB_SIZE - Suc i)" by (simp only: rb)
          from e v' i p r' b' show "(p, b) \<in> set (loop_touches t0 a [UP, DOWN, LEFT, RIGHT])"
            unfolding loop_touches_iff by blast
        qed
      qed
      have blast_eq: "(p, b) \<in> set (blast_touches t0 a) \<longleftrightarrow> (p, b) \<in> set (blast_touches t a)" for b
        by (simp add: blast_touches_iff loop_eq)
      show ?thesis
      proof (cases "\<exists>b. (p, b) \<in> set (blast_touches t a)")
        case True
        then obtain b where b: "(p, b) \<in> set (blast_touches t a)" by blast
        then have b0: "(p, b) \<in> set (blast_touches t0 a)" by (simp add: blast_eq)
        show ?thesis unfolding ch_eq by (simp add: blast_entry [OF b] blast_entry [OF b0] tokp)
      next
        case False
        then have n: "\<forall>b. (p, b) \<notin> set (blast_touches t a)" by blast
        then have n0: "\<forall>b. (p, b) \<notin> set (blast_touches t0 a)" by (simp add: blast_eq)
        show ?thesis unfolding ch_eq by (simp add: blast_no_entry [OF n] blast_no_entry [OF n0])
      qed
    qed
    from beyond ch0 same show ?thesis by blast
  qed
  from ch cw nf lone show ?thesis by blast
qed

theorem wall_absorbs_blast_witness:
  "wf_terrain walled4 \<and> get_token walled4 (Position 0 0) = Inr BOMB \<and> RIGHT \<noteq> NONE \<and>
   (2::nat) \<in> {1, 2, 3} \<and> ahead (Position 0 0) RIGHT 2 = Position 2 0 \<and>
   get_token walled4 (Position 2 0) = Inr WALL \<and>
   get_token walled4 (ahead (Position 0 0) RIGHT 1) \<noteq> Inr WALL \<and>
   update walled4 [(Position 2 0, EMPTY)]
     = Inr \<lparr>width = 4, height = 1, cells = [BOMB, EMPTY, EMPTY, EMPTY]\<rparr> \<and>
   (\<exists>ch. detonate (Position 0 0) walled4 = Inr ch \<and>
         map_of ch (Position 2 0) = Some EMPTY \<and>
         ch = [(Position 0 0, Token [0x253C]), (Position 1 0, Token [0x2500]), (Position 2 0, EMPTY)])"
proof -
  have a2: "ahead (Position 0 0) RIGHT 2 = Position 2 0" by (simp add: ahead_def)
  have h: "wf_terrain walled4" "get_token walled4 (Position 0 0) = Inr BOMB" "RIGHT \<noteq> NONE"
    "(2::nat) \<in> {1, 2, 3}" "get_token walled4 (ahead (Position 0 0) RIGHT 2) = Inr WALL"
    by (simp_all add: walled4_def wf_terrain_def get_token_def loc_to_index_def
          is_valid_position_def py_index_def ahead_def)
  have g1: "get_token walled4 (ahead (Position 0 0) RIGHT 1) \<noteq> Inr WALL"
    by (simp add: walled4_def get_token_def loc_to_index_def is_valid_position_def py_index_def
          ahead_def EMPTY_def WALL_def)
  have between: "\<forall>j. 0 < j \<and> j < (2::nat) \<longrightarrow> get_token walled4 (ahead (Position 0 0) RIGHT j) \<noteq> Inr WALL"
  proof (intro allI impI)
    fix j :: nat assume "0 < j \<and> j < 2"
    then have "j = 1" by simp
    with g1 show "get_token walled4 (ahead (Position 0 0) RIGHT j) \<noteq> Inr WALL" by simp
  qed
  have u: "update walled4 [(ahead (Position 0 0) RIGHT 2, EMPTY)]
             = Inr \<lparr>width = 4, height = 1, cells = [BOMB, EMPTY, EMPTY, EMPTY]\<rparr>"
    by (simp add: walled4_def loc_to_index_def is_valid_position_def py_index_def ahead_def)
  have d: "detonate (Position 0 0) walled4
             = Inr [(Position 0 0, Token [0x253C]), (Position 1 0, Token [0x2500]), (Position 2 0, EMPTY)]"
    by (simp add: walled4_def eval_simps)
  from wall_absorbs_blast [OF h between u] obtain ch where
    "detonate (Position 0 0) walled4 = Inr ch" "map_of ch (ahead (Position 0 0) RIGHT 2) = Some EMPTY"
    by blast
  with h g1 u d a2 show ?thesis by simp
qed

subsection \<open>A propagation up to a given cell\<close>

fun line_touches :: "position \<Rightarrow> direction \<Rightarrow> nat \<Rightarrow> nat \<Rightarrow> (position \<times> nat) list" where
  "line_touches c d n 0 = []"
| "line_touches c d n (Suc m) = (c, step_bits d (n - 1)) # line_touches (ahead c d 1) d (n - 1) m"

lemma line_touches_keys:
  "(p, b) \<in> set (line_touches c d n m) \<Longrightarrow> \<exists>j<m. p = ahead c d j"
proof (induction m arbitrary: c n)
  case 0
  then show ?case by simp
next
  case (Suc m)
  from Suc.prems have "p = c \<or> (p, b) \<in> set (line_touches (ahead c d 1) d (n - 1) m)" by auto
  then show ?case
  proof
    assume "p = c"
    then have "0 < Suc m \<and> p = ahead c d 0" by simp
    then show ?thesis by blast
  next
    assume "(p, b) \<in> set (line_touches (ahead c d 1) d (n - 1) m)"
    from Suc.IH [OF this] obtain j where "j < m" "p = ahead (ahead c d 1) d j" by blast
    then have "Suc j < Suc m \<and> p = ahead c d (Suc j)" by (simp add: ahead_ahead)
    then show ?thesis by blast
  qed
qed

lemma ray_touches_split:
  "m < n \<Longrightarrow> reaches t c d m \<Longrightarrow>
     ray_touches t c d n = line_touches c d n m @ ray_touches t (ahead c d m) d (n - m)"
proof (induction m arbitrary: c n)
  case 0
  show ?case by simp
next
  case (Suc m)
  then obtain n' where n: "n = Suc n'" by (cases n) auto
  from Suc.prems(2) have nw: "get_token t c \<noteq> Inr WALL" and v1: "is_valid_position t (ahead c d 1)"
    and r1: "reaches t (ahead c d 1) d m" by (simp_all add: reaches_Suc)
  from Suc.prems(1) n have mn: "m < n'" by simp
  have "ray_touches t c d (Suc n') = (c, step_bits d n') # ray_touches t (ahead c d 1) d n'"
    by (rule ray_touches_step [OF nw v1])
  also have "ray_touches t (ahead c d 1) d n'
      = line_touches (ahead c d 1) d n' m @ ray_touches t (ahead (ahead c d 1) d m) d (n' - m)"
    by (rule Suc.IH [OF mn r1])
  finally show ?case by (simp add: n ahead_ahead)
qed

lemma fold_touch_unrecorded:
  "p \<notin> fst ` set ts \<Longrightarrow> map_of (fold (touch t) ts ch) p = map_of ch p"
proof (induction ts arbitrary: ch)
  case Nil
  show ?case by simp
next
  case (Cons qb ts)
  then have "p \<noteq> fst qb" and "p \<notin> fst ` set ts" by auto
  with Cons.IH [of "touch t qb ch"] show ?case by (simp add: touch_def update_conv')
qed

lemma propagate_along:
  assumes wf: "wf_terrain t" and card: "d \<noteq> NONE"
  shows "is_valid_position t c \<Longrightarrow> m < n \<Longrightarrow> reaches t c d m \<Longrightarrow>
         \<forall>j<m. get_token t (ahead c d j) \<noteq> Inr BOMB \<Longrightarrow>
         propagate t c d n ch
           = propagate t (ahead c d m) d (n - m) (fold (touch t) (line_touches c d n m) ch)"
proof (induction m arbitrary: c n ch)
  case 0
  show ?case by simp
next
  case (Suc m)
  then obtain n' where n: "n = Suc n'" by (cases n) auto
  let ?c1 = "ahead c d 1"
  from Suc.prems(3) have nw: "get_token t c \<noteq> Inr WALL" and v1: "is_valid_position t ?c1"
    and r1: "reaches t ?c1 d m" by (simp_all add: reaches_Suc)
  from Suc.prems(2) n have mn: "m < n'" by simp
  from Suc.prems(4) have nbc: "get_token t c \<noteq> Inr BOMB" by auto
  have nb1: "\<forall>j<m. get_token t (ahead ?c1 d j) \<noteq> Inr BOMB"
  proof (intro allI impI)
    fix j assume "j < m"
    then have "Suc j < Suc m" by simp
    with Suc.prems(4) have "get_token t (ahead c d (Suc j)) \<noteq> Inr BOMB" by blast
    then show "get_token t (ahead ?c1 d j) \<noteq> Inr BOMB" by (simp add: ahead_ahead)
  qed
  have tok: "get_token t c = Inr (tok_at t c)" by (rule get_token_wf [OF wf Suc.prems(1)])
  with nw nbc have nw': "tok_at t c \<noteq> WALL" and nb': "\<not> (tok_at t c = BOMB \<and> map_of ch c = None)"
    by simp_all
  let ?ch1 = "touch t (c, step_bits d n') ch"
  have af: "add_flame t c (if n' = 0 then [opposite d] else [d, opposite d]) ch = Inr ?ch1"
    using nw by (simp add: add_flame_valid [OF Suc.prems(1) step_bits_cardinal [OF card]]
                   touch_def step_bits_def)
  have "propagate t c d (Suc n') ch = propagate t ?c1 d n' ?ch1"
    using v1 by (simp add: propagate_open [OF tok nw' nb'] af get_new_position_from_ahead [OF card])
  also have "\<dots> = propagate t (ahead ?c1 d m) d (n' - m)
                     (fold (touch t) (line_touches ?c1 d n' m) ?ch1)"
    by (rule Suc.IH [OF v1 mn r1 nb1])
  finally show ?case by (simp add: n ahead_ahead)
qed

lemma detonate_loop_append:
  "detonate_loop t a (ds1 @ ds2) ch =
     (case detonate_loop t a ds1 ch of Inl e \<Rightarrow> Inl e | Inr r \<Rightarrow> detonate_loop t a ds2 r)"
proof (induction ds1 arbitrary: ch)
  case Nil
  show ?case by (simp add: detonate_loop.simps)
next
  case (Cons e ds1)
  show ?case
  proof (cases "get_new_position_from a e")
    case (Inl err)
    then show ?thesis by (simp add: detonate_loop.simps)
  next
    case np: (Inr np)
    show ?thesis
    proof (cases "if is_valid_position t np then propagate t np e BOMB_SIZE ch else Inr ch")
      case (Inl err)
      with np show ?thesis by (simp add: detonate_loop.simps)
    next
      case (Inr r1)
      with np Cons.IH [of r1] show ?thesis by (simp add: detonate_loop.simps)
    qed
  qed
qed

lemma split_directions:
  assumes "d \<noteq> NONE"
  obtains ds1 ds2 where "[UP, DOWN, LEFT, RIGHT] = ds1 @ d # ds2"
    and "d \<notin> set ds1" and "d \<notin> set ds2" and "NONE \<notin> set ds1" and "NONE \<notin> set ds2"
proof (cases d)
  case NONE
  with assms show ?thesis by simp
next
  case UP
  show ?thesis by (rule that [of "[]" "[DOWN, LEFT, RIGHT]"]) (simp_all add: UP)
next
  case RIGHT
  show ?thesis by (rule that [of "[UP, DOWN, LEFT]" "[]"]) (simp_all add: RIGHT)
next
  case DOWN
  show ?thesis by (rule that [of "[UP]" "[LEFT, RIGHT]"]) (simp_all add: DOWN)
next
  case LEFT
  show ?thesis by (rule that [of "[UP, DOWN]" "[RIGHT]"]) (simp_all add: LEFT)
qed

lemma ray_touches_same_walls:
  assumes "width t' = width t" "height t' = height t"
    and "\<forall>p. get_token t' p = Inr WALL \<longleftrightarrow> get_token t p = Inr WALL"
  shows "ray_touches t' c d n = ray_touches t c d n"
proof (induction n arbitrary: c)
  case 0
  show ?case by simp
next
  case (Suc n)
  from assms(3) have w: "get_token t' c = Inr WALL \<longleftrightarrow> get_token t c = Inr WALL" by blast
  have v: "is_valid_position t' (ahead c d (Suc 0)) = is_valid_position t (ahead c d (Suc 0))"
    by (rule valid_dims [OF assms(1,2)])
  show ?case by (simp add: w v Suc.IH)
qed

lemma blast_touches_same_walls:
  assumes "width t' = width t" "height t' = height t"
    and "\<forall>p. get_token t' p = Inr WALL \<longleftrightarrow> get_token t p = Inr WALL"
  shows "blast_touches t' a = blast_touches t a"
proof -
  have v: "is_valid_position t' p = is_valid_position t p" for p
    by (rule valid_dims [OF assms(1,2)])
  show ?thesis
    by (simp add: blast_touches_def loop_touches_def v ray_touches_same_walls [OF assms])
qed

lemma touch_same_walls:
  assumes "\<forall>p. get_token t' p = Inr WALL \<longleftrightarrow> get_token t p = Inr WALL"
  shows "touch t' = touch t"
proof (intro ext)
  fix pb :: "position \<times> nat" and ch
  from assms have "get_token t' (fst pb) = Inr WALL \<longleftrightarrow> get_token t (fst pb) = Inr WALL" by blast
  then show "touch t' pb ch = touch t pb ch" by (simp add: touch_def)
qed


subsection \<open>A blast that sets off a second bomb\<close>

lemma side_rays_miss:
  assumes card: "d \<noteq> NONE" and nd: "d \<notin> set ds" and nn: "NONE \<notin> set ds"
    and k: "0 < k"
    and p: "p \<in> fst ` set (loop_touches t a ds)"
  shows "p \<noteq> a" and "p \<noteq> ahead a d k"
proof -
  from p obtain b where pb: "(p, b) \<in> set (loop_touches t a ds)" by auto
  then obtain e i where e: "e \<in> set ds" and pe: "p = ahead a e (Suc i)"
    unfolding loop_touches_iff by blast
  from e nd nn have ne: "e \<noteq> d" "e \<noteq> NONE" by auto
  show "p \<noteq> a" by (rule loop_touches_not_center [OF nn pb])
  show "p \<noteq> ahead a d k"
  proof
    assume "p = ahead a d k"
    with pe have "ahead a d k = ahead a e (Suc i)" by simp
    with ahead_cross [OF card ne(2) k, of a "Suc i"] ne(1) show False by simp
  qed
qed

lemma chain_run:
  assumes wf: "wf_terrain t" and card: "d \<noteq> NONE" and k: "0 < k" "k \<le> BOMB_SIZE"
    and bomb_a: "get_token t a = Inr BOMB" and bomb_b: "get_token t (ahead a d k) = Inr BOMB"
    and only: "\<forall>p. get_token t p = Inr BOMB \<longrightarrow> p = a \<or> p = ahead a d k"
    and open_cells: "\<forall>j. 0 < j \<and> j < k \<longrightarrow> get_token t (ahead a d j) \<noteq> Inr WALL"
    and split: "[UP, DOWN, LEFT, RIGHT] = ds1 @ d # ds2"
    and nd: "d \<notin> set ds1" "d \<notin> set ds2" and nn: "NONE \<notin> set ds1" "NONE \<notin> set ds2"
  shows "detonate a t = Inr (fold (touch t)
           ((a, 15) # loop_touches t a ds1 @ line_touches (ahead a d 1) d BOMB_SIZE (k - 1)
              @ blast_touches t (ahead a d k) @ loop_touches t a ds2) [])"
proof -
  let ?b = "ahead a d k"
  let ?c = "ahead a d 1"
  let ?L1 = "loop_touches t a ds1" and ?L2 = "loop_touches t a ds2"
  let ?pre = "line_touches ?c d BOMB_SIZE (k - 1)"
  obtain m where m: "k = Suc m" using k(1) by (cases k) auto
  have va: "is_valid_position t a" using bomb_a by (rule get_token_valid)
  have vb: "is_valid_position t ?b" using bomb_b by (rule get_token_valid)
  have vc: "is_valid_position t ?c" by (rule valid_between [OF va vb]) (use k in simp)
  have ab: "a \<noteq> ?b" using ahead_inj [OF card, of a 0 k] k(1) by (simp add: ahead_0)
  let ?ch1 = "touch t (a, 15) []"
  have af: "add_flame t a [UP, DOWN, LEFT, RIGHT] [] = Inr ?ch1"
    using bomb_a by (simp add: add_flame_valid [OF va] touch_def del: direction_bits.simps)
  \<comment> \<open>the rays before the one that meets the second bomb\<close>
  let ?r1 = "fold (touch t) ?L1 ?ch1"
  have free1: "\<forall>p \<in> fst ` set ?L1. get_token t p = Inr BOMB \<longrightarrow> map_of ?ch1 p \<noteq> None"
    using side_rays_miss [OF card nd(1) nn(1) k(1)] only by blast
  have l1: "detonate_loop t a ds1 ?ch1 = Inr ?r1" by (rule loop_free [OF wf nn(1) free1])
  \<comment> \<open>the ray that meets the second bomb\<close>
  let ?r2 = "fold (touch t) ?pre ?r1"
  have re: "reaches t ?c d m"
    by (rule reaches_between [OF va]) (use vb open_cells m in simp_all)
  have nb: "\<forall>j<m. get_token t (ahead ?c d j) \<noteq> Inr BOMB"
  proof (intro allI impI)
    fix j assume j: "j < m"
    have "ahead a d (Suc j) \<noteq> a" using ahead_inj [OF card, of a "Suc j" 0] by (simp add: ahead_0)
    moreover have "ahead a d (Suc j) \<noteq> ?b" using ahead_inj [OF card, of a "Suc j" k] j m by simp
    ultimately have "get_token t (ahead a d (Suc j)) \<noteq> Inr BOMB" using only by blast
    then show "get_token t (ahead ?c d j) \<noteq> Inr BOMB" by (simp add: ahead_ahead)
  qed
  have mB: "m < BOMB_SIZE" using k(2) m by simp
  have along: "propagate t ?c d BOMB_SIZE ?r1 = propagate t (ahead ?c d m) d (BOMB_SIZE - m) ?r2"
    using propagate_along [OF wf card vc mB re nb, of ?r1] m by simp
  have cm: "ahead ?c d m = ?b" by (simp add: ahead_ahead m)
  obtain n' where n': "BOMB_SIZE - m = Suc n'" using mB by (cases "BOMB_SIZE - m") auto
  have b_pre: "?b \<notin> fst ` set ?pre"
  proof
    assume "?b \<in> fst ` set ?pre"
    then obtain x where "(?b, x) \<in> set ?pre" by auto
    from line_touches_keys [OF this] obtain j where j: "j < k - 1" "?b = ahead ?c d j" by blast
    then have "ahead a d k = ahead a d (Suc j)" by (simp add: ahead_ahead)
    with ahead_inj [OF card, of a k "Suc j"] j(1) show False by simp
  qed
  have b_l1: "?b \<notin> fst ` set ?L1" using side_rays_miss(2) [OF card nd(1) nn(1) k(1)] by blast
  have "map_of ?r2 ?b = map_of ?r1 ?b" by (rule fold_touch_unrecorded [OF b_pre])
  also have "\<dots> = map_of ?ch1 ?b" by (rule fold_touch_unrecorded [OF b_l1])
  also have "\<dots> = None" using ab by (simp add: touch_def update_conv')
  finally have b_new: "map_of ?r2 ?b = None" .
  have a_rec: "map_of ?r2 a \<noteq> None"
    by (intro fold_touch_recorded touch_self_recorded)
  have freeb: "\<forall>p \<in> fst ` set (loop_touches t ?b [UP, DOWN, LEFT, RIGHT]).
                 get_token t p = Inr BOMB \<longrightarrow> p = ?b \<or> map_of ?r2 p \<noteq> None"
    using only a_rec by blast
  have nwb: "get_token t ?b \<noteq> Inr WALL" using bomb_b by simp
  let ?r3 = "fold (touch t) (blast_touches t ?b) ?r2"
  note along
  also have "propagate t (ahead ?c d m) d (BOMB_SIZE - m) ?r2 = propagate t ?b d (Suc n') ?r2"
    by (simp only: cm n')
  also have "\<dots> = detonate_at t ?b ?r2" by (rule propagate_chain [OF bomb_b b_new])
  also have "\<dots> = Inr ?r3" by (rule detonate_at_free [OF wf vb nwb freeb])
  finally have ray: "propagate t ?c d BOMB_SIZE ?r1 = Inr ?r3" .
  \<comment> \<open>the remaining rays\<close>
  have free2: "\<forall>p \<in> fst ` set ?L2. get_token t p = Inr BOMB \<longrightarrow> map_of ?r3 p \<noteq> None"
    using side_rays_miss [OF card nd(2) nn(2) k(1)] only by blast
  have l2: "detonate_loop t a ds2 ?r3 = Inr (fold (touch t) ?L2 ?r3)"
    by (rule loop_free [OF wf nn(2) free2])
  have ld: "detonate_loop t a (d # ds2) ?r1 = Inr (fold (touch t) ?L2 ?r3)"
    using vc ray l2 by (simp add: detonate_loop.simps get_new_position_from_ahead [OF card])
  have "detonate_loop t a (ds1 @ d # ds2) ?ch1 = Inr (fold (touch t) ?L2 ?r3)"
    by (simp add: detonate_loop_append l1 ld)
  then have "detonate_at t a [] = Inr (fold (touch t) ?L2 ?r3)"
    using af split by (simp add: detonate_at.simps)
  then show ?thesis using bomb_a by (simp add: detonate_def)
qed


subsection \<open>The union of two blasts\<close>

text \<open>
  The entry of a cell in the union of two change-sets: the entry of the one that has
  it, and for a cell of both the glyph of the bitwise OR of the two masks.
\<close>

definition merged_entry :: "token option \<Rightarrow> token option \<Rightarrow> token option" where
  "merged_entry u v =
     (case u of None \<Rightarrow> v
      | Some g \<Rightarrow> (case v of None \<Rightarrow> Some g
                    | Some g' \<Rightarrow> map_of flame_tokens (existing_mask_of g OR existing_mask_of g')))"

definition pair5 :: terrain where
  "pair5 = \<lparr>width = 5, height = 1, cells = [BOMB, EMPTY, BOMB, EMPTY, EMPTY]\<rparr>"

lemma line_touches_lt16: "\<forall>qb \<in> set (line_touches c d n m). snd qb < 16"
  by (induction m arbitrary: c n) (simp_all add: step_bits_lt16)

lemma loop_touches_lt16: "\<forall>qb \<in> set (loop_touches t a ds). snd qb < 16"
proof
  fix qb assume "qb \<in> set (loop_touches t a ds)"
  then have "(fst qb, snd qb) \<in> set (loop_touches t a ds)" by simp
  then show "snd qb < 16" unfolding loop_touches_iff by (auto simp: ray_bits_lt16)
qed

lemma existing_mask_of_EMPTY: "existing_mask_of EMPTY = 0"
  using existing_mask_of_glyph [of 0] by (simp add: glyph_0)

lemma entry_of_touches:
  assumes "\<forall>qb \<in> set ts. snd qb < 16"
  shows "map_of (fold (touch t) ts []) p =
     (if p \<in> fst ` set ts
      then Some (glyph (if get_token t p = Inr WALL then 0 else bits_at ts p)) else None)"
  using map_of_fold_touch [OF assms, where t = t and ch = "[]" and p = p]
  by (simp add: mask_at_def glyph_0)

lemma merged_touches:
  assumes l1: "\<forall>qb \<in> set ts. snd qb < 16" and l2: "\<forall>qb \<in> set us. snd qb < 16"
  shows "merged_entry (map_of (fold (touch t) ts []) p) (map_of (fold (touch t) us []) p)
           = map_of (fold (touch t) (ts @ us) []) p"
proof -
  have l: "\<forall>qb \<in> set (ts @ us). snd qb < 16" using l1 l2 by auto
  have b1: "bits_at ts p < 16" by (rule bits_at_lt16 [OF l1])
  have b2: "bits_at us p < 16" by (rule bits_at_lt16 [OF l2])
  have z: "(0::nat) < 16" by simp
  show ?thesis
    unfolding entry_of_touches [OF l1] entry_of_touches [OF l2] entry_of_touches [OF l]
    by (simp add: merged_entry_def bits_at_append bits_at_notin existing_mask_of_glyph [OF b1]
          existing_mask_of_glyph [OF b2] existing_mask_of_glyph [OF z]
          flame_tokens_lookup [OF or_lt16 [OF b1 b2]] flame_tokens_lookup [OF z] image_Un)
qed

lemma same_entries:
  assumes l1: "\<forall>qb \<in> set ts. snd qb < 16" and l2: "\<forall>qb \<in> set us. snd qb < 16"
    and keys: "fst ` set ts = fst ` set us" and bits: "bits_at ts p = bits_at us p"
  shows "map_of (fold (touch t) ts []) p = map_of (fold (touch t) us []) p"
  unfolding entry_of_touches [OF l1] entry_of_touches [OF l2] by (simp add: keys bits)

lemma bits_at_absorbed:
  "\<forall>x. (p, x) \<in> set ts \<longrightarrow> x OR c = c \<Longrightarrow> bits_at ts p OR c = c"
proof (induction ts)
  case Nil
  show ?case by simp
next
  case (Cons qb ts)
  then have ih: "bits_at ts p OR c = c" by simp
  show ?case
  proof (cases "fst qb = p")
    case True
    then have "(p, snd qb) \<in> set (qb # ts)" by (cases qb) simp
    with Cons.prems have "snd qb OR c = c" by blast
    with ih True show ?thesis by (simp add: or.assoc)
  next
    case False
    with ih show ?thesis by simp
  qed
qed

lemma or_15: "m < 16 \<Longrightarrow> m OR 15 = (15::nat)"
  by (drule lt16_cases) auto

lemma step_bits_mono: "m \<le> n \<Longrightarrow> step_bits d m OR step_bits d n = step_bits d n"
proof (cases n)
  case 0
  assume "m \<le> n"
  with 0 show ?thesis by simp
next
  case (Suc n')
  have "direction_bits [d, opposite d] OR step_bits d m = direction_bits [d, opposite d]"
    unfolding step_bits_def by (rule direction_bits_subset) simp
  then show ?thesis by (simp add: Suc step_bits_simps or.commute)
qed

text \<open>
  What a ray marks from a bomb's own cell on is covered by the blast of that bomb.
\<close>

lemma ray_within_blast:
  assumes card: "d \<noteq> NONE" and n: "n \<le> BOMB_SIZE"
    and px: "(p, bx) \<in> set (ray_touches t b d n)"
  shows "\<exists>y. (p, y) \<in> set (blast_touches t b) \<and> bx OR y = y"
proof -
  from px obtain i where i: "i < n" and p: "p = ahead b d i" and re: "reaches t b d i"
    and bx: "bx = ray_bits t p d (n - Suc i)" unfolding ray_touches_iff by blast
  show ?thesis
  proof (cases i)
    case 0
    then have "p = b" using p by (simp add: ahead_0)
    then have "(p, 15) \<in> set (blast_touches t b)" by (simp add: blast_touches_iff)
    moreover have "bx OR 15 = 15" unfolding bx by (rule or_15 [OF ray_bits_lt16])
    ultimately show ?thesis by blast
  next
    case (Suc i')
    from re have v1: "is_valid_position t (ahead b d 1)" and r1: "reaches t (ahead b d 1) d i'"
      unfolding Suc reaches_Suc by simp_all
    from i n Suc have i': "i' < BOMB_SIZE" by simp
    let ?y = "ray_bits t p d (BOMB_SIZE - Suc i')"
    have "(p, ?y) \<in> set (loop_touches t b [UP, DOWN, LEFT, RIGHT])"
      unfolding loop_touches_iff using cardinal_in_list [OF card] v1 i' p r1 Suc by blast
    then have "(p, ?y) \<in> set (blast_touches t b)" by (simp add: blast_touches_iff)
    moreover have "bx OR ?y = ?y"
    proof -
      have "n - Suc i \<le> BOMB_SIZE - Suc i'" using n Suc by simp
      then show ?thesis unfolding bx ray_bits_def by (simp add: step_bits_mono)
    qed
    ultimately show ?thesis by blast
  qed
qed

lemma or_shuffle:
  "(x0 OR x1 OR (p OR s) OR x2) OR b = x0 OR x1 OR p OR (s OR b) OR (x2::nat)"
  by (simp add: or.assoc or.commute or.left_commute)

lemma EMPTY_neq [simp]: "EMPTY \<noteq> BOMB" "EMPTY \<noteq> WALL"
  by (simp_all add: EMPTY_def BOMB_def WALL_def)


text \<open>
  Claim C2.  Take a grid with exactly two bombs, the second one \<open>k\<close> cells (1 to 3) from
  the first in a cardinal direction \<open>d\<close> with no wall between them, so that the blast of
  the first reaches the cell of the second.  Detonating the first bomb returns one
  change-set, and it is the union of the effects of the two bombs, the effect of a bomb
  being what \<open>detonate\<close> returns for it on the grid from which the other bomb has been
  taken away: a cell of one effect only has the entry of that effect, and a cell of both
  has the glyph of the bitwise OR of the two masks.  A propagation in direction \<open>d\<close> that
  arrives at the cell of the second bomb, not yet recorded, returns exactly what the
  detonation of that bomb returns: it goes no further itself.
\<close>

theorem chain_reaction_is_union:
  assumes wf: "wf_terrain t" and card: "d \<noteq> NONE" and k: "k \<in> {1, 2, 3}"
    and bomb_a: "get_token t a = Inr BOMB" and bomb_b: "get_token t (ahead a d k) = Inr BOMB"
    and only: "\<forall>p. get_token t p = Inr BOMB \<longrightarrow> p = a \<or> p = ahead a d k"
    and open_cells: "\<forall>j. 0 < j \<and> j < k \<longrightarrow> get_token t (ahead a d j) \<noteq> Inr WALL"
    and uA: "update t [(ahead a d k, EMPTY)] = Inr tA"
    and uB: "update t [(a, EMPTY)] = Inr tB"
  shows "\<exists>ch chA chB.
           detonate a t = Inr ch \<and> detonate a tA = Inr chA \<and> detonate (ahead a d k) tB = Inr chB \<and>
           (\<forall>p. map_of ch p = merged_entry (map_of chA p) (map_of chB p)) \<and>
           (\<forall>n ch'. map_of ch' (ahead a d k) = None \<longrightarrow>
                     propagate t (ahead a d k) d (Suc n) ch' = detonate_at t (ahead a d k) ch')"
proof -
  define b where "b = ahead a d k"
  from k obtain m where m: "k = Suc m" and mB: "m < BOMB_SIZE"
    by (cases k) (auto simp: BOMB_SIZE_def)
  have k1: "0 < k" "k \<le> BOMB_SIZE" using m mB by simp_all
  have km: "k - 1 = m" using m by simp
  have va: "is_valid_position t a" using bomb_a by (rule get_token_valid)
  have vb: "is_valid_position t (ahead a d k)" using bomb_b by (rule get_token_valid)
  have vc: "is_valid_position t (ahead a d 1)" by (rule valid_between [OF va vb]) (use k1 in simp)
  have ab: "a \<noteq> ahead a d k" using ahead_inj [OF card, of a 0 k] k1(1) by (simp add: ahead_0)
  have re: "reaches t (ahead a d 1) d m"
    by (rule reaches_between [OF va]) (use vb open_cells m in simp_all)
  obtain ds1 ds2 where split: "[UP, DOWN, LEFT, RIGHT] = ds1 @ d # ds2"
    and nd: "d \<notin> set ds1" "d \<notin> set ds2" and nn: "NONE \<notin> set ds1" "NONE \<notin> set ds2"
    by (rule split_directions [OF card])
  define L1 where "L1 = loop_touches t a ds1"
  define L2 where "L2 = loop_touches t a ds2"
  define pre where "pre = line_touches (ahead a d 1) d BOMB_SIZE m"
  define suf where "suf = ray_touches t (ahead a d k) d (BOMB_SIZE - m)"
  define TSb where "TSb = blast_touches t (ahead a d k)"
  define TSa where "TSa = blast_touches t a"
  define TSc where "TSc = [(a, 15)] @ L1 @ pre @ TSb @ L2"
  \<comment> \<open>the chain reaction\<close>
  have chain: "detonate a t = Inr (fold (touch t) TSc [])"
    using chain_run [OF wf card k1 bomb_a bomb_b only open_cells split nd nn]
    unfolding TSc_def L1_def L2_def pre_def TSb_def km by simp
  \<comment> \<open>the first bomb alone\<close>
  have wallsA: "\<forall>p. get_token tA p = Inr WALL \<longleftrightarrow> get_token t p = Inr WALL"
  proof
    fix p show "get_token tA p = Inr WALL \<longleftrightarrow> get_token t p = Inr WALL"
      using update_single(4) [OF wf vb uA] update_single(5) [OF wf vb uA, of p] bomb_b by (cases "p = ahead a d k") simp_all
  qed
  have onlyA: "\<forall>p. get_token tA p = Inr BOMB \<longrightarrow> p = a"
  proof (intro allI impI)
    fix p assume h: "get_token tA p = Inr BOMB"
    then have "p \<noteq> ahead a d k" using update_single(4) [OF wf vb uA] by auto
    with update_single(5) [OF wf vb uA, of p] h only show "p = a" by auto
  qed
  have bombA: "get_token tA a = Inr BOMB"
    using update_single(5) [OF wf vb uA ab] bomb_a by simp
  have soloA: "detonate a tA = Inr (fold (touch t) TSa [])"
    using lone_blast [OF update_single(1) [OF wf vb uA] bombA onlyA]
    unfolding TSa_def touch_same_walls [OF wallsA]
      blast_touches_same_walls [OF update_single(2,3) [OF wf vb uA] wallsA] .
  \<comment> \<open>the second bomb alone\<close>
  have wallsB: "\<forall>p. get_token tB p = Inr WALL \<longleftrightarrow> get_token t p = Inr WALL"
  proof
    fix p show "get_token tB p = Inr WALL \<longleftrightarrow> get_token t p = Inr WALL"
      using update_single(4) [OF wf va uB] update_single(5) [OF wf va uB, of p] bomb_a by (cases "p = a") simp_all
  qed
  have onlyB: "\<forall>p. get_token tB p = Inr BOMB \<longrightarrow> p = ahead a d k"
  proof (intro allI impI)
    fix p assume h: "get_token tB p = Inr BOMB"
    then have "p \<noteq> a" using update_single(4) [OF wf va uB] by auto
    with update_single(5) [OF wf va uB, of p] h only show "p = ahead a d k" by auto
  qed
  have bombB: "get_token tB (ahead a d k) = Inr BOMB"
    using update_single(5) [OF wf va uB ab [symmetric]] bomb_b by simp
  have soloB: "detonate (ahead a d k) tB = Inr (fold (touch t) TSb [])"
    using lone_blast [OF update_single(1) [OF wf va uB] bombB onlyB]
    unfolding TSb_def touch_same_walls [OF wallsB]
      blast_touches_same_walls [OF update_single(2,3) [OF wf va uB] wallsB] .
  \<comment> \<open>the blast of the first bomb, cut at the second bomb\<close>
  have cm: "ahead (ahead a d 1) d m = ahead a d k" by (simp add: ahead_ahead m)
  have ray: "ray_touches t (ahead a d 1) d BOMB_SIZE = pre @ suf"
    using ray_touches_split [OF mB re] unfolding pre_def suf_def cm .
  have "loop_touches t a (ds1 @ d # ds2) = L1 @ (pre @ suf) @ L2"
    unfolding loop_touches_append loop_touches_Cons L1_def L2_def ray [symmetric] using vc
    by (simp only: if_True)
  then have TSa: "TSa = [(a, 15)] @ L1 @ (pre @ suf) @ L2"
    unfolding TSa_def blast_touches_def split by simp
  have ltA: "\<forall>qb \<in> set TSa. snd qb < 16" unfolding TSa_def by (rule blast_touches_lt16)
  have ltB: "\<forall>qb \<in> set TSb. snd qb < 16" unfolding TSb_def by (rule blast_touches_lt16)
  have ltL1: "\<forall>qb \<in> set L1. snd qb < 16" unfolding L1_def by (rule loop_touches_lt16)
  have ltL2: "\<forall>qb \<in> set L2. snd qb < 16" unfolding L2_def by (rule loop_touches_lt16)
  have ltP: "\<forall>qb \<in> set pre. snd qb < 16" unfolding pre_def by (rule line_touches_lt16)
  have ltC: "\<forall>qb \<in> set TSc. snd qb < 16"
    unfolding TSc_def using ltB ltL1 ltL2 ltP by (simp add: ball_Un)
  have ltAB: "\<forall>qb \<in> set (TSa @ TSb). snd qb < 16" using ltA ltB by (simp add: ball_Un)
  have covered: "\<exists>y. (p, y) \<in> set TSb \<and> bx OR y = y" if "(p, bx) \<in> set suf" for p bx
    using that unfolding suf_def TSb_def by (intro ray_within_blast [OF card]) simp_all
  have sufk: "fst ` set suf \<subseteq> fst ` set TSb"
  proof
    fix p assume "p \<in> fst ` set suf"
    then obtain bx where "(p, bx) \<in> set suf" by auto
    from covered [OF this] obtain y where "(p, y) \<in> set TSb" by blast
    then show "p \<in> fst ` set TSb" by force
  qed
  have keys: "fst ` set TSc = fst ` set (TSa @ TSb)"
    unfolding TSc_def TSa using sufk by (simp add: image_Un) blast
  have absorb: "bits_at suf p OR bits_at TSb p = bits_at TSb p" for p
  proof (rule bits_at_absorbed, intro allI impI)
    fix bx assume "(p, bx) \<in> set suf"
    from covered [OF this] obtain y where y: "(p, y) \<in> set TSb" and o: "bx OR y = y" by blast
    have "bits_at TSb p = y"
    proof (rule bits_at_unique [OF y], intro allI impI)
      fix b' assume "(p, b') \<in> set TSb"
      then show "b' = y" using y unfolding TSb_def by (rule blast_touches_unique)
    qed
    with o show "bx OR bits_at TSb p = bits_at TSb p" by simp
  qed
  have bits: "bits_at TSc p = bits_at (TSa @ TSb) p" for p
    unfolding TSc_def TSa bits_at_append or_shuffle absorb ..
  have merged: "map_of (fold (touch t) TSc []) p
      = merged_entry (map_of (fold (touch t) TSa []) p) (map_of (fold (touch t) TSb []) p)" for p
    unfolding merged_touches [OF ltA ltB] by (rule same_entries [OF ltC ltAB keys bits])
  have stop: "\<forall>n ch'. map_of ch' (ahead a d k) = None \<longrightarrow>
                propagate t (ahead a d k) d (Suc n) ch' = detonate_at t (ahead a d k) ch'"
    by (intro allI impI) (rule propagate_chain [OF bomb_b])
  from chain soloA soloB merged stop show ?thesis by blast
qed

theorem chain_reaction_is_union_witness:
  "wf_terrain pair5 \<and> RIGHT \<noteq> NONE \<and> (2::nat) \<in> {1, 2, 3} \<and>
   ahead (Position 0 0) RIGHT 2 = Position 2 0 \<and>
   get_token pair5 (Position 0 0) = Inr BOMB \<and> get_token pair5 (Position 2 0) = Inr BOMB \<and>
   get_token pair5 (ahead (Position 0 0) RIGHT 1) \<noteq> Inr WALL \<and>
   update pair5 [(Position 2 0, EMPTY)]
     = Inr \<lparr>width = 5, height = 1, cells = [BOMB, EMPTY, EMPTY, EMPTY, EMPTY]\<rparr> \<and>
   update pair5 [(Position 0 0, EMPTY)]
     = Inr \<lparr>width = 5, height = 1, cells = [EMPTY, EMPTY, BOMB, EMPTY, EMPTY]\<rparr> \<and>
   detonate (Position 0 0) pair5
     = Inr [(Position 0 0, Token [0x253C]), (Position 1 0, Token [0x2500]),
            (Position 2 0, Token [0x253C]), (Position 3 0, Token [0x2500]),
            (Position 4 0, Token [0x2500])] \<and>
   detonate (Position 0 0) \<lparr>width = 5, height = 1, cells = [BOMB, EMPTY, EMPTY, EMPTY, EMPTY]\<rparr>
     = Inr [(Position 0 0, Token [0x253C]), (Position 1 0, Token [0x2500]),
            (Position 2 0, Token [0x2500]), (Position 3 0, Token [0x2574])] \<and>
   detonate (Position 2 0) \<lparr>width = 5, height = 1, cells = [EMPTY, EMPTY, BOMB, EMPTY, EMPTY]\<rparr>
     = Inr [(Position 2 0, Token [0x253C]), (Position 1 0, Token [0x2500]),
            (Position 0 0, Token [0x2500]), (Position 3 0, Token [0x2500]),
            (Position 4 0, Token [0x2500])] \<and>
   (\<forall>p. map_of [(Position 0 0, Token [0x253C]), (Position 1 0, Token [0x2500]),
                 (Position 2 0, Token [0x253C]), (Position 3 0, Token [0x2500]),
                 (Position 4 0, Token [0x2500])] p
        = merged_entry
            (map_of [(Position 0 0, Token [0x253C]), (Position 1 0, Token [0x2500]),
                     (Position 2 0, Token [0x2500]), (Position 3 0, Token [0x2574])] p)
            (map_of [(Position 2 0, Token [0x253C]), (Position 1 0, Token [0x2500]),
                     (Position 0 0, Token [0x2500]), (Position 3 0, Token [0x2500]),
                     (Position 4 0, Token [0x2500])] p))"
proof -
  let ?a = "Position 0 0"
  let ?tA = "\<lparr>width = 5, height = 1, cells = [BOMB, EMPTY, EMPTY, EMPTY, EMPTY]\<rparr>"
  let ?tB = "\<lparr>width = 5, height = 1, cells = [EMPTY, EMPTY, BOMB, EMPTY, EMPTY]\<rparr>"
  have a2: "ahead ?a RIGHT 2 = Position 2 0" by (simp add: ahead_def)
  have wf: "wf_terrain pair5" by (simp add: pair5_def wf_terrain_def)
  have h: "RIGHT \<noteq> NONE" "(2::nat) \<in> {1, 2, 3}" by simp_all
  have bombs: "get_token pair5 ?a = Inr BOMB" "get_token pair5 (ahead ?a RIGHT 2) = Inr BOMB"
    by (simp_all add: pair5_def get_token_def loc_to_index_def is_valid_position_def py_index_def
          ahead_def)
  have g1: "get_token pair5 (ahead ?a RIGHT 1) \<noteq> Inr WALL"
    by (simp add: pair5_def get_token_def loc_to_index_def is_valid_position_def py_index_def
          ahead_def EMPTY_def WALL_def)
  have between: "\<forall>j. 0 < j \<and> j < (2::nat) \<longrightarrow> get_token pair5 (ahead ?a RIGHT j) \<noteq> Inr WALL"
  proof (intro allI impI)
    fix j :: nat assume "0 < j \<and> j < 2"
    then have "j = 1" by simp
    with g1 show "get_token pair5 (ahead ?a RIGHT j) \<noteq> Inr WALL" by simp
  qed
  have only: "\<forall>p. get_token pair5 p = Inr BOMB \<longrightarrow> p = ?a \<or> p = ahead ?a RIGHT 2"
  proof (intro allI impI)
    fix p assume b: "get_token pair5 p = Inr BOMB"
    obtain px py where p: "p = Position px py" by (cases p)
    from b have "is_valid_position pair5 p" by (rule get_token_valid)
    then have r: "py = 0" "0 \<le> px" "px < 5" by (simp_all add: valid_iff p pair5_def)
    then have "px = 0 \<or> px = 1 \<or> px = 2 \<or> px = 3 \<or> px = 4" by arith
    then have "px = 0 \<or> px = 2"
      using b r(1) unfolding p
      by (auto simp: pair5_def get_token_def loc_to_index_def is_valid_position_def py_index_def
            EMPTY_def BOMB_def)
    with r(1) show "p = ?a \<or> p = ahead ?a RIGHT 2" by (auto simp: p a2)
  qed
  have uA: "update pair5 [(ahead ?a RIGHT 2, EMPTY)] = Inr ?tA"
    by (simp add: pair5_def loc_to_index_def is_valid_position_def py_index_def ahead_def)
  have uB: "update pair5 [(?a, EMPTY)] = Inr ?tB"
    by (simp add: pair5_def loc_to_index_def is_valid_position_def py_index_def)
  have d: "detonate ?a pair5
     = Inr [(Position 0 0, Token [0x253C]), (Position 1 0, Token [0x2500]),
            (Position 2 0, Token [0x253C]), (Position 3 0, Token [0x2500]),
            (Position 4 0, Token [0x2500])]"
    by (simp add: pair5_def eval_simps)
  have dA: "detonate ?a ?tA
     = Inr [(Position 0 0, Token [0x253C]), (Position 1 0, Token [0x2500]),
            (Position 2 0, Token [0x2500]), (Position 3 0, Token [0x2574])]"
    by (simp add: eval_simps)
  have dB: "detonate (Position 2 0) ?tB
     = Inr [(Position 2 0, Token [0x253C]), (Position 1 0, Token [0x2500]),
            (Position 0 0, Token [0x2500]), (Position 3 0, Token [0x2500]),
            (Position 4 0, Token [0x2500])]"
    by (simp add: eval_simps)
  from chain_reaction_is_union [OF wf h bombs only between uA uB]
  obtain ch chA chB where "detonate ?a pair5 = Inr ch" "detonate ?a ?tA = Inr chA"
    "detonate (ahead ?a RIGHT 2) ?tB = Inr chB"
    "\<forall>p. map_of ch p = merged_entry (map_of chA p) (map_of chB p)" by blast
  then have m: "\<forall>p. map_of [(Position 0 0, Token [0x253C]), (Position 1 0, Token [0x2500]),
                 (Position 2 0, Token [0x253C]), (Position 3 0, Token [0x2500]),
                 (Position 4 0, Token [0x2500])] p
        = merged_entry
            (map_of [(Position 0 0, Token [0x253C]), (Position 1 0, Token [0x2500]),
                     (Position 2 0, Token [0x2500]), (Position 3 0, Token [0x2574])] p)
            (map_of [(Position 2 0, Token [0x253C]), (Position 1 0, Token [0x2500]),
                     (Position 0 0, Token [0x2500]), (Position 3 0, Token [0x2500]),
                     (Position 4 0, Token [0x2500])] p)"
    unfolding a2 d dA dB by simp
  show ?thesis
    using wf h a2 bombs [unfolded a2] g1 uA [unfolded a2] uB d dA dB m by (intro conjI)
qed

subsection \<open>A cell that two blasts of one call mark\<close>

lemma opposite_opposite [simp]: "opposite (opposite d) = d"
  by (cases d) simp_all

lemma ahead_back:
  "d \<noteq> NONE \<Longrightarrow> ahead (ahead a d k) (opposite d) j
     = (if j \<le> k then ahead a d (k - j) else ahead a (opposite d) (j - k))"
  by (cases d) (auto simp: ahead_def of_nat_diff)

text \<open>
  The change-set of a chain reaction of two bombs has, cell by cell, the entries that
  the markings of the one blast followed by the markings of the other produce.
\<close>

lemma chain_entries:
  assumes wf: "wf_terrain t" and card: "d \<noteq> NONE" and k1: "0 < k" "k \<le> BOMB_SIZE"
    and bomb_a: "get_token t a = Inr BOMB" and bomb_b: "get_token t (ahead a d k) = Inr BOMB"
    and only: "\<forall>p. get_token t p = Inr BOMB \<longrightarrow> p = a \<or> p = ahead a d k"
    and open_cells: "\<forall>j. 0 < j \<and> j < k \<longrightarrow> get_token t (ahead a d j) \<noteq> Inr WALL"
  shows "\<exists>ch. detonate a t = Inr ch \<and>
           (\<forall>p. map_of ch p
                  = map_of (fold (touch t) (blast_touches t a @ blast_touches t (ahead a d k)) []) p)"
proof -
  from k1 obtain m where m: "k = Suc m" and mB: "m < BOMB_SIZE" by (cases k) auto
  have km: "k - 1 = m" using m by simp
  have va: "is_valid_position t a" using bomb_a by (rule get_token_valid)
  have vb: "is_valid_position t (ahead a d k)" using bomb_b by (rule get_token_valid)
  have vc: "is_valid_position t (ahead a d 1)" by (rule valid_between [OF va vb]) (use k1 in simp)
  have re: "reaches t (ahead a d 1) d m"
    by (rule reaches_between [OF va]) (use vb open_cells m in simp_all)
  obtain ds1 ds2 where split: "[UP, DOWN, LEFT, RIGHT] = ds1 @ d # ds2"
    and nd: "d \<notin> set ds1" "d \<notin> set ds2" and nn: "NONE \<notin> set ds1" "NONE \<notin> set ds2"
    by (rule split_directions [OF card])
  define L1 where "L1 = loop_touches t a ds1"
  define L2 where "L2 = loop_touches t a ds2"
  define pre where "pre = line_touches (ahead a d 1) d BOMB_SIZE m"
  define suf where "suf = ray_touches t (ahead a d k) d (BOMB_SIZE - m)"
  define TSb where "TSb = blast_touches t (ahead a d k)"
  define TSa where "TSa = blast_touches t a"
  define TSc where "TSc = [(a, 15)] @ L1 @ pre @ TSb @ L2"
  have chain: "detonate a t = Inr (fold (touch t) TSc [])"
    using chain_run [OF wf card k1 bomb_a bomb_b only open_cells split nd nn]
    unfolding TSc_def L1_def L2_def pre_def TSb_def km by simp
  have cm: "ahead (ahead a d 1) d m = ahead a d k" by (simp add: ahead_ahead m)
  have ray: "ray_touches t (ahead a d 1) d BOMB_SIZE = pre @ suf"
    using ray_touches_split [OF mB re] unfolding pre_def suf_def cm .
  have "loop_touches t a (ds1 @ d # ds2) = L1 @ (pre @ suf) @ L2"
    unfolding loop_touches_append loop_touches_Cons L1_def L2_def ray [symmetric] using vc
    by (simp only: if_True)
  then have TSa: "TSa = [(a, 15)] @ L1 @ (pre @ suf) @ L2"
    unfolding TSa_def blast_touches_def split by simp
  have ltA: "\<forall>qb \<in> set TSa. snd qb < 16" unfolding TSa_def by (rule blast_touches_lt16)
  have ltB: "\<forall>qb \<in> set TSb. snd qb < 16" unfolding TSb_def by (rule blast_touches_lt16)
  have ltL1: "\<forall>qb \<in> set L1. snd qb < 16" unfolding L1_def by (rule loop_touches_lt16)
  have ltL2: "\<forall>qb \<in> set L2. snd qb < 16" unfolding L2_def by (rule loop_touches_lt16)
  have ltP: "\<forall>qb \<in> set pre. snd qb < 16" unfolding pre_def by (rule line_touches_lt16)
  have ltC: "\<forall>qb \<in> set TSc. snd qb < 16"
    unfolding TSc_def using ltB ltL1 ltL2 ltP by (simp add: ball_Un)
  have ltAB: "\<forall>qb \<in> set (TSa @ TSb). snd qb < 16" using ltA ltB by (simp add: ball_Un)
  have covered: "\<exists>y. (p, y) \<in> set TSb \<and> bx OR y = y" if "(p, bx) \<in> set suf" for p bx
    using that unfolding suf_def TSb_def by (intro ray_within_blast [OF card]) simp_all
  have sufk: "fst ` set suf \<subseteq> fst ` set TSb"
  proof
    fix p assume "p \<in> fst ` set suf"
    then obtain bx where "(p, bx) \<in> set suf" by auto
    from covered [OF this] obtain y where "(p, y) \<in> set TSb" by blast
    then show "p \<in> fst ` set TSb" by force
  qed
  have keys: "fst ` set TSc = fst ` set (TSa @ TSb)"
    unfolding TSc_def TSa using sufk by (simp add: image_Un) blast
  have absorb: "bits_at suf p OR bits_at TSb p = bits_at TSb p" for p
  proof (rule bits_at_absorbed, intro allI impI)
    fix bx assume "(p, bx) \<in> set suf"
    from covered [OF this] obtain y where y: "(p, y) \<in> set TSb" and o: "bx OR y = y" by blast
    have "bits_at TSb p = y"
    proof (rule bits_at_unique [OF y], intro allI impI)
      fix b' assume "(p, b') \<in> set TSb"
      then show "b' = y" using y unfolding TSb_def by (rule blast_touches_unique)
    qed
    with o show "bx OR bits_at TSb p = bits_at TSb p" by simp
  qed
  have bits: "bits_at TSc p = bits_at (TSa @ TSb) p" for p
    unfolding TSc_def TSa bits_at_append or_shuffle absorb ..
  have "map_of (fold (touch t) TSc []) p = map_of (fold (touch t) (TSa @ TSb) []) p" for p
    by (rule same_entries [OF ltC ltAB keys bits])
  with chain show ?thesis unfolding TSa_def TSb_def by blast
qed

text \<open>What the blast of a bomb alone puts on a cell of one of its four arms.\<close>

lemma blast_bits_on_ray:
  assumes card: "e \<noteq> NONE" and i: "0 < i" "i \<le> BOMB_SIZE"
    and vc: "is_valid_position t c" and vq: "is_valid_position t (ahead c e i)"
    and open_cells: "\<forall>j. 0 < j \<and> j < i \<longrightarrow> get_token t (ahead c e j) \<noteq> Inr WALL"
    and nw: "get_token t (ahead c e i) \<noteq> Inr WALL"
  shows "bits_at (blast_touches t c) (ahead c e i) = step_bits e (BOMB_SIZE - i)"
    and "ahead c e i \<in> fst ` set (blast_touches t c)"
proof -
  from i obtain i' where i': "i = Suc i'" and iB: "i' < BOMB_SIZE" by (cases i) auto
  have v1: "is_valid_position t (ahead c e 1)" by (rule valid_between [OF vc vq]) (use i in simp)
  have re: "reaches t (ahead c e 1) e i'"
    by (rule reaches_between [OF vc]) (use vq open_cells i' in simp_all)
  let ?q = "ahead c e i"
  let ?b = "ray_bits t ?q e (BOMB_SIZE - Suc i')"
  have "(?q, ?b) \<in> set (loop_touches t c [UP, DOWN, LEFT, RIGHT])"
    unfolding loop_touches_iff using cardinal_in_list [OF card] v1 iB re i' by blast
  then have mem: "(?q, ?b) \<in> set (blast_touches t c)" by (simp add: blast_touches_iff)
  then show "?q \<in> fst ` set (blast_touches t c)" by force
  have "bits_at (blast_touches t c) ?q = ?b"
  proof (rule bits_at_unique [OF mem], intro allI impI)
    fix b' assume "(?q, b') \<in> set (blast_touches t c)"
    then show "b' = ?b" using mem by (rule blast_touches_unique)
  qed
  then show "bits_at (blast_touches t c) ?q = step_bits e (BOMB_SIZE - i)"
    using nw by (simp add: ray_bits_def i')
qed

text \<open>
  Two bombs in line, and a cell on the far side of the first one that the blasts of both
  reach: the arm of the first bomb marks it, and so does the arm of the second bomb,
  which passes through the cell of the first.
\<close>

lemma far_side_entry:
  assumes wf: "wf_terrain t" and card: "d \<noteq> NONE" and k1: "0 < k"
    and bomb_a: "get_token t a = Inr BOMB" and bomb_b: "get_token t (ahead a d k) = Inr BOMB"
    and only: "\<forall>p. get_token t p = Inr BOMB \<longrightarrow> p = a \<or> p = ahead a d k"
    and open_cells: "\<forall>j. 0 < j \<and> j < k \<longrightarrow> get_token t (ahead a d j) \<noteq> Inr WALL"
    and i: "0 < i" "k + i \<le> BOMB_SIZE"
    and vq: "is_valid_position t (ahead a (opposite d) i)"
    and nw: "get_token t (ahead a (opposite d) i) \<noteq> Inr WALL"
    and open_far: "\<forall>j. 0 < j \<and> j < i \<longrightarrow> get_token t (ahead a (opposite d) j) \<noteq> Inr WALL"
  shows "\<exists>ch. detonate a t = Inr ch \<and>
           map_of ch (ahead a (opposite d) i)
             = Some (glyph (direction_bits [opposite d, d]
                            OR direction_bits (if k + i = BOMB_SIZE then [d] else [opposite d, d])))"
proof -
  let ?e = "opposite d"
  let ?q = "ahead a ?e i"
  let ?b = "ahead a d k"
  have e: "?e \<noteq> NONE" using card by simp
  have kB: "k \<le> BOMB_SIZE" and iB: "i \<le> BOMB_SIZE" and ki: "0 < k + i" using i k1 by simp_all
  have va: "is_valid_position t a" using bomb_a by (rule get_token_valid)
  have vb: "is_valid_position t ?b" using bomb_b by (rule get_token_valid)
  \<comment> \<open>the first bomb's own arm\<close>
  obtain r where r: "BOMB_SIZE - i = Suc r" using i k1 by (cases "BOMB_SIZE - i") auto
  have A: "bits_at (blast_touches t a) ?q = direction_bits [?e, d]"
    using blast_bits_on_ray(1) [OF e i(1) iB va vq open_far nw] by (simp add: r step_bits_simps)
  have Ak: "?q \<in> fst ` set (blast_touches t a)"
    by (rule blast_bits_on_ray(2) [OF e i(1) iB va vq open_far nw])
  \<comment> \<open>the second bomb's arm, through the cell of the first\<close>
  have q: "ahead ?b ?e (k + i) = ?q" using i(1) by (simp add: ahead_back [OF card])
  have open_b: "\<forall>j. 0 < j \<and> j < k + i \<longrightarrow> get_token t (ahead ?b ?e j) \<noteq> Inr WALL"
  proof (intro allI impI)
    fix j assume j: "0 < j \<and> j < k + i"
    consider "j < k" | "j = k" | "k < j" by arith
    then show "get_token t (ahead ?b ?e j) \<noteq> Inr WALL"
    proof cases
      case 1
      then have "0 < k - j \<and> k - j < k" using j by simp
      with open_cells have "get_token t (ahead a d (k - j)) \<noteq> Inr WALL" by blast
      with 1 show ?thesis by (simp add: ahead_back [OF card])
    next
      case 2
      with bomb_a show ?thesis by (simp add: ahead_back [OF card])
    next
      case 3
      then have "0 < j - k \<and> j - k < i" using j by arith
      with open_far have "get_token t (ahead a ?e (j - k)) \<noteq> Inr WALL" by blast
      with 3 show ?thesis by (simp add: ahead_back [OF card])
    qed
  qed
  have vq': "is_valid_position t (ahead ?b ?e (k + i))" and nw': "get_token t (ahead ?b ?e (k + i)) \<noteq> Inr WALL"
    using vq nw by (simp_all add: q)
  have B0: "bits_at (blast_touches t ?b) ?q = step_bits ?e (BOMB_SIZE - (k + i))"
    using blast_bits_on_ray(1) [OF e ki i(2) vb vq' open_b nw'] by (simp only: q)
  have B: "bits_at (blast_touches t ?b) ?q
             = direction_bits (if k + i = BOMB_SIZE then [d] else [?e, d])"
  proof (cases "k + i = BOMB_SIZE")
    case True
    with B0 show ?thesis by (simp add: step_bits_simps)
  next
    case False
    then obtain r' where "BOMB_SIZE - (k + i) = Suc r'"
      using i(2) by (cases "BOMB_SIZE - (k + i)") auto
    with B0 False show ?thesis by (simp add: step_bits_simps)
  qed
  from chain_entries [OF wf card k1 kB bomb_a bomb_b only open_cells] obtain ch where
    ch: "detonate a t = Inr ch"
    and en: "\<forall>p. map_of ch p = map_of (fold (touch t) (blast_touches t a @ blast_touches t ?b) []) p"
    by blast
  have lt: "\<forall>qb \<in> set (blast_touches t a @ blast_touches t ?b). snd qb < 16"
    using blast_touches_lt16 [of t a] blast_touches_lt16 [of t ?b] by (simp add: ball_Un)
  have "map_of (fold (touch t) (blast_touches t a @ blast_touches t ?b) []) ?q
          = Some (glyph (bits_at (blast_touches t a) ?q OR bits_at (blast_touches t ?b) ?q))"
    unfolding entry_of_touches [OF lt] using Ak nw by (simp add: bits_at_append image_Un)
  with en have "map_of ch ?q
          = Some (glyph (bits_at (blast_touches t a) ?q OR bits_at (blast_touches t ?b) ?q))"
    by simp
  with ch show ?thesis unfolding A B by blast
qed

text \<open>Applying the returned change-set puts the entry of a cell on that cell.\<close>

lemma applied_entry:
  assumes wf: "wf_terrain t" and d: "detonate pos t = Inr ch" and m: "map_of ch q = Some tok"
  shows "\<exists>t'. update t ch = Inr t' \<and> get_token t' q = Inr tok"
proof -
  from d obtain tk where "get_token t pos = Inr tk" by (cases "get_token t pos") (simp_all add: detonate_def)
  then have vp: "is_valid_position t pos" by (rule get_token_valid)
  from detonate_keys_ok [OF wf vp] d have k: "keys_ok t ch" by simp
  then have dist: "distinct (map fst ch)" and val: "\<forall>p \<in> set (map fst ch). is_valid_position t p"
    by (simp_all add: keys_ok_def)
  from update_ok [OF wf dist val] obtain t' where
    u: "update t ch = Inr t'" and wf': "wf_terrain t'"
    and d': "width t' = width t" "height t' = height t"
    and rd: "\<forall>p. is_valid_position t p \<longrightarrow>
                tok_at t' p = (case map_of ch p of Some tok \<Rightarrow> tok | None \<Rightarrow> tok_at t p)"
    by blast
  from m have "(q, tok) \<in> set ch" by (rule map_of_SomeD)
  then have "q \<in> set (map fst ch)" by force
  with val have vq: "is_valid_position t q" by blast
  then have vq': "is_valid_position t' q" by (simp add: valid_dims [OF d'])
  from rd vq m have "tok_at t' q = tok" by simp
  with get_token_wf [OF wf' vq'] u show ?thesis by simp
qed


definition stale4 :: terrain where
  "stale4 = \<lparr>width = 4, height = 1, cells = [Token [0x2502], BOMB, EMPTY, BOMB]\<rparr>"

text \<open>
  Claim C10.  Let the cell \<open>q\<close> hold a flame glyph \<open>g\<close> left over from an earlier blast.

  \<^item> \<open>detonate\<close> treats \<open>q\<close> as an open cell and does not read its glyph: from every
    starting position it returns exactly the change-set that it returns on the grid in
    which \<open>q\<close> has been reset to the empty marker.
  \<^item> Applying a returned change-set with \<open>update\<close> succeeds and puts the entry of \<open>q\<close> in
    place of the old glyph.
  \<^item> The entry of \<open>q\<close> is computed from the direction bits accumulated in the change-set
    alone: a first marking of \<open>q\<close> records the glyph of its own bits, whatever \<open>g\<close> is,
    and a second marking records the glyph of the bitwise OR of the bits of the two.
  \<^item> In a call of \<open>detonate\<close> in which two blasts mark \<open>q\<close> (two bombs in line, no wall
    between them, and \<open>q\<close> within three cells of both on the far side of the detonated
    one) the entry of \<open>q\<close> is the glyph of the OR of the two contributions: the bits of
    the arm of the detonated bomb, which are the direction of travel and its opposite,
    and the bits of the arm of the other bomb, which are these two again, or, if \<open>q\<close>
    is its outermost cell, the bit that points back to it.
\<close>

theorem detonate_ignores_stale_flame_glyph:
  assumes "wf_terrain t" and "get_token t q = Inr g" and "g \<in> set FLAMES"
    and "update t [(q, EMPTY)] = Inr t0"
  shows "detonate pos t = detonate pos t0 \<and>
    (\<forall>ch tok. detonate pos t = Inr ch \<and> map_of ch q = Some tok \<longrightarrow>
       (\<exists>t'. update t ch = Inr t' \<and> get_token t' q = Inr tok)) \<and>
    (NONE \<notin> set ds1 \<and> NONE \<notin> set ds2 \<and> map_of ch0 q = None \<longrightarrow>
       (\<exists>ch1 ch2. add_flame t q ds1 ch0 = Inr ch1 \<and>
                  map_of ch1 q = Some (glyph (direction_bits ds1)) \<and>
                  add_flame t q ds2 ch1 = Inr ch2 \<and>
                  map_of ch2 q = Some (glyph (direction_bits ds1 OR direction_bits ds2)))) \<and>
    (d \<noteq> NONE \<and> k \<in> {1, 2, 3} \<and> 0 < i \<and> k + i \<le> 3 \<and> q = ahead a (opposite d) i \<and>
     get_token t a = Inr BOMB \<and> get_token t (ahead a d k) = Inr BOMB \<and>
     (\<forall>p. get_token t p = Inr BOMB \<longrightarrow> p = a \<or> p = ahead a d k) \<and>
     (\<forall>j. 0 < j \<and> j < k \<longrightarrow> get_token t (ahead a d j) \<noteq> Inr WALL) \<and>
     (\<forall>j. 0 < j \<and> j < i \<longrightarrow> get_token t (ahead a (opposite d) j) \<noteq> Inr WALL) \<longrightarrow>
       (\<exists>ch. detonate a t = Inr ch \<and>
             map_of ch q = Some (glyph (direction_bits [opposite d, d]
                                  OR direction_bits (if k + i = 3 then [d] else [opposite d, d])))))"
proof (intro conjI allI impI)
  show "detonate pos t = detonate pos t0" by (rule stale_glyph_not_read [OF assms])
next
  fix ch tok assume "detonate pos t = Inr ch \<and> map_of ch q = Some tok"
  then show "\<exists>t'. update t ch = Inr t' \<and> get_token t' q = Inr tok"
    using applied_entry [OF assms(1)] by blast
next
  assume h: "NONE \<notin> set ds1 \<and> NONE \<notin> set ds2 \<and> map_of ch0 q = None"
  have vq: "is_valid_position t q" using assms(2) by (rule get_token_valid)
  have m0: "mask_at ch0 q = 0" using h by (simp add: mask_at_def)
  let ?ch1 = "AList.update q (glyph (direction_bits ds1)) ch0"
  let ?ch2 = "AList.update q (glyph (direction_bits ds1 OR direction_bits ds2)) ch0"
  have a1: "add_flame t q ds1 ch0 = Inr ?ch1"
    using h by (simp add: add_flame_valid [OF vq] m0)
  have a2: "add_flame t q ds2 ?ch1 = Inr ?ch2"
    using add_flame_twice [OF vq _ _ a1, of ds2] h by (simp add: m0)
  have "map_of ?ch1 q = Some (glyph (direction_bits ds1))"
    and "map_of ?ch2 q = Some (glyph (direction_bits ds1 OR direction_bits ds2))"
    by (simp_all add: update_conv')
  with a1 a2 show "\<exists>ch1 ch2. add_flame t q ds1 ch0 = Inr ch1 \<and>
                  map_of ch1 q = Some (glyph (direction_bits ds1)) \<and>
                  add_flame t q ds2 ch1 = Inr ch2 \<and>
                  map_of ch2 q = Some (glyph (direction_bits ds1 OR direction_bits ds2))"
    by blast
next
  assume h: "d \<noteq> NONE \<and> k \<in> {1, 2, 3} \<and> 0 < i \<and> k + i \<le> 3 \<and> q = ahead a (opposite d) i \<and>
     get_token t a = Inr BOMB \<and> get_token t (ahead a d k) = Inr BOMB \<and>
     (\<forall>p. get_token t p = Inr BOMB \<longrightarrow> p = a \<or> p = ahead a d k) \<and>
     (\<forall>j. 0 < j \<and> j < k \<longrightarrow> get_token t (ahead a d j) \<noteq> Inr WALL) \<and>
     (\<forall>j. 0 < j \<and> j < i \<longrightarrow> get_token t (ahead a (opposite d) j) \<noteq> Inr WALL)"
  then have card: "d \<noteq> NONE" and k1: "0 < k" and i: "0 < i" "k + i \<le> BOMB_SIZE"
    and q: "q = ahead a (opposite d) i"
    and bombs: "get_token t a = Inr BOMB" "get_token t (ahead a d k) = Inr BOMB"
    and only: "\<forall>p. get_token t p = Inr BOMB \<longrightarrow> p = a \<or> p = ahead a d k"
    and open_cells: "\<forall>j. 0 < j \<and> j < k \<longrightarrow> get_token t (ahead a d j) \<noteq> Inr WALL"
    and open_far: "\<forall>j. 0 < j \<and> j < i \<longrightarrow> get_token t (ahead a (opposite d) j) \<noteq> Inr WALL"
    by (auto simp: BOMB_SIZE_def)
  have vq: "is_valid_position t (ahead a (opposite d) i)"
    using assms(2) unfolding q by (rule get_token_valid)
  have nw: "get_token t (ahead a (opposite d) i) \<noteq> Inr WALL"
    using assms(2) FLAMES_not_wall_bomb [OF assms(3)] unfolding q by simp
  have B3: "(k + i = 3) = (k + i = BOMB_SIZE)" by (simp add: BOMB_SIZE_def)
  show "\<exists>ch. detonate a t = Inr ch \<and>
             map_of ch q = Some (glyph (direction_bits [opposite d, d]
                                  OR direction_bits (if k + i = 3 then [d] else [opposite d, d])))"
    unfolding B3 q
    by (rule far_side_entry [OF assms(1) card k1 bombs only open_cells i vq nw open_far])
qed

theorem detonate_ignores_stale_flame_glyph_witness:
  "wf_terrain stale4 \<and> get_token stale4 (Position 0 0) = Inr (Token [0x2502]) \<and>
   Token [0x2502] \<in> set FLAMES \<and>
   update stale4 [(Position 0 0, EMPTY)]
     = Inr \<lparr>width = 4, height = 1, cells = [EMPTY, BOMB, EMPTY, BOMB]\<rparr> \<and>
   RIGHT \<noteq> NONE \<and> (2::nat) \<in> {1, 2, 3} \<and> (0::nat) < 1 \<and> (2::nat) + 1 \<le> 3 \<and>
   Position 0 0 = ahead (Position 1 0) (opposite RIGHT) 1 \<and>
   ahead (Position 1 0) RIGHT 2 = Position 3 0 \<and>
   get_token stale4 (Position 1 0) = Inr BOMB \<and> get_token stale4 (Position 3 0) = Inr BOMB \<and>
   get_token stale4 (ahead (Position 1 0) RIGHT 1) \<noteq> Inr WALL \<and>
   detonate (Position 1 0) stale4
     = detonate (Position 1 0) \<lparr>width = 4, height = 1, cells = [EMPTY, BOMB, EMPTY, BOMB]\<rparr> \<and>
   detonate (Position 1 0) stale4
     = Inr [(Position 1 0, Token [0x253C]), (Position 0 0, Token [0x2500]),
            (Position 2 0, Token [0x2500]), (Position 3 0, Token [0x253C])] \<and>
   map_of [(Position 1 0, Token [0x253C]), (Position 0 0, Token [0x2500]),
           (Position 2 0, Token [0x2500]), (Position 3 0, Token [0x253C])] (Position 0 0)
     = Some (glyph (direction_bits [opposite RIGHT, RIGHT] OR direction_bits [RIGHT])) \<and>
   glyph (direction_bits [opposite RIGHT, RIGHT] OR direction_bits [RIGHT]) = Token [0x2500] \<and>
   (\<exists>t'. update stale4 [(Position 1 0, Token [0x253C]), (Position 0 0, Token [0x2500]),
                        (Position 2 0, Token [0x2500]), (Position 3 0, Token [0x253C])] = Inr t' \<and>
         get_token t' (Position 0 0) = Inr (Token [0x2500])) \<and>
   add_flame stale4 (Position 0 0) [LEFT, RIGHT] [] = Inr [(Position 0 0, Token [0x2500])] \<and>
   add_flame stale4 (Position 0 0) [RIGHT] [(Position 0 0, Token [0x2500])]
     = Inr [(Position 0 0, Token [0x2500])]"
proof -
  let ?a = "Position 1 0" and ?q = "Position 0 0"
  let ?t0 = "\<lparr>width = 4, height = 1, cells = [EMPTY, BOMB, EMPTY, BOMB]\<rparr>"
  let ?ch = "[(Position 1 0, Token [0x253C]), (Position 0 0, Token [0x2500]),
              (Position 2 0, Token [0x2500]), (Position 3 0, Token [0x253C])]"
  have h: "wf_terrain stale4" "get_token stale4 ?q = Inr (Token [0x2502])"
    "Token [0x2502] \<in> set FLAMES" "update stale4 [(?q, EMPTY)] = Inr ?t0"
    by (simp_all add: stale4_def wf_terrain_def get_token_def loc_to_index_def
          is_valid_position_def py_index_def FLAMES_def)
  have g: "RIGHT \<noteq> NONE" "(2::nat) \<in> {1, 2, 3}" "(0::nat) < 1" "(2::nat) + 1 \<le> 3"
    "?q = ahead ?a (opposite RIGHT) 1" by (simp_all add: ahead_def)
  have a2: "ahead ?a RIGHT 2 = Position 3 0" by (simp add: ahead_def)
  have bombs: "get_token stale4 ?a = Inr BOMB" "get_token stale4 (ahead ?a RIGHT 2) = Inr BOMB"
    by (simp_all add: stale4_def get_token_def loc_to_index_def is_valid_position_def py_index_def
          ahead_def)
  have g1: "get_token stale4 (ahead ?a RIGHT 1) \<noteq> Inr WALL"
    by (simp add: stale4_def get_token_def loc_to_index_def is_valid_position_def py_index_def
          ahead_def EMPTY_def WALL_def)
  have between: "\<forall>j. 0 < j \<and> j < (2::nat) \<longrightarrow> get_token stale4 (ahead ?a RIGHT j) \<noteq> Inr WALL"
  proof (intro allI impI)
    fix j :: nat assume "0 < j \<and> j < 2"
    then have "j = 1" by simp
    with g1 show "get_token stale4 (ahead ?a RIGHT j) \<noteq> Inr WALL" by simp
  qed
  have far: "\<forall>j. 0 < j \<and> j < (1::nat) \<longrightarrow> get_token stale4 (ahead ?a (opposite RIGHT) j) \<noteq> Inr WALL"
    by simp
  have only: "\<forall>p. get_token stale4 p = Inr BOMB \<longrightarrow> p = ?a \<or> p = ahead ?a RIGHT 2"
  proof (intro allI impI)
    fix p assume b: "get_token stale4 p = Inr BOMB"
    obtain px py where p: "p = Position px py" by (cases p)
    from b have "is_valid_position stale4 p" by (rule get_token_valid)
    then have r: "py = 0" "0 \<le> px" "px < 4" by (simp_all add: valid_iff p stale4_def)
    then have "px = 0 \<or> px = 1 \<or> px = 2 \<or> px = 3" by arith
    then have "px = 1 \<or> px = 3"
      using b r(1) unfolding p
      by (auto simp: stale4_def get_token_def loc_to_index_def is_valid_position_def py_index_def
            EMPTY_def BOMB_def)
    with r(1) show "p = ?a \<or> p = ahead ?a RIGHT 2" by (auto simp: p a2)
  qed
  have d: "detonate ?a stale4 = Inr ?ch" by (simp add: stale4_def eval_simps)
  have gl: "glyph (direction_bits [opposite RIGHT, RIGHT] OR direction_bits [RIGHT]) = Token [0x2500]"
    by (simp add: glyph_def flame_tokens_def)
  have m: "map_of ?ch ?q = Some (Token [0x2500])" by simp
  have n: "NONE \<notin> set [LEFT, RIGHT]" "NONE \<notin> set [RIGHT]" "map_of [] ?q = None" by simp_all
  have f1: "add_flame stale4 ?q [LEFT, RIGHT] [] = Inr [(?q, Token [0x2500])]"
    by (simp add: stale4_def eval_simps)
  have f2: "add_flame stale4 ?q [RIGHT] [(?q, Token [0x2500])] = Inr [(?q, Token [0x2500])]"
    by (simp add: stale4_def eval_simps)
  note T = detonate_ignores_stale_flame_glyph [OF h, of ?a "[LEFT, RIGHT]" "[RIGHT]" "[]" RIGHT 2 1 ?a]
  from T have e: "detonate ?a stale4 = detonate ?a ?t0" by blast
  from T d m have u: "\<exists>t'. update stale4 ?ch = Inr t' \<and> get_token t' ?q = Inr (Token [0x2500])"
    by blast
  from T g bombs only between far obtain ch where
    "detonate ?a stale4 = Inr ch"
    "map_of ch ?q = Some (glyph (direction_bits [opposite RIGHT, RIGHT]
                           OR direction_bits (if (2::nat) + 1 = 3 then [RIGHT] else [opposite RIGHT, RIGHT])))"
    by blast
  with d have two: "map_of ?ch ?q
      = Some (glyph (direction_bits [opposite RIGHT, RIGHT] OR direction_bits [RIGHT]))"
    by simp
  show ?thesis
    using h g a2 bombs [unfolded a2] g1 e d two gl u f1 f2 by (intro conjI)
qed

end
